theory Spec2Isabelle
  imports Complex_Main "HOL-Library.Word" "HOL-Library.Monad_Syntax"
begin

unbundle bit_operations_syntax

section \<open>Floating-point values\<close>

text \<open>
  The renderer computes in \<^verbatim>\<open>float\<close>, \<^verbatim>\<open>double\<close> and \<^verbatim>\<open>real\<close> (one of the two).
  All three are modelled by one type: a finite value is an exact real number (rounding is
  not modelled, so the casts between the three types are the identity), and the special
  values of IEEE 754 are kept, because the code relies on them: \<^verbatim>\<open>0/0\<close> is a NaN, a
  nonzero value divided by zero is an infinity, and every comparison with a NaN is false.
  The two zeros of IEEE 754 are not told apart (a zero divisor counts as positive).
\<close>

datatype fp = Fin real | PInf | NInf | NaN

definition signed_inf :: "bool \<Rightarrow> fp" where
  "signed_inf positive = (if positive then PInf else NInf)"

fun fp_neg :: "fp \<Rightarrow> fp" where
  "fp_neg (Fin a) = Fin (- a)"
| "fp_neg PInf = NInf"
| "fp_neg NInf = PInf"
| "fp_neg NaN = NaN"

fun fp_add :: "fp \<Rightarrow> fp \<Rightarrow> fp" where
  "fp_add (Fin a) (Fin b) = Fin (a + b)"
| "fp_add NaN _ = NaN"
| "fp_add _ NaN = NaN"
| "fp_add PInf NInf = NaN"
| "fp_add NInf PInf = NaN"
| "fp_add PInf _ = PInf"
| "fp_add _ PInf = PInf"
| "fp_add NInf _ = NInf"
| "fp_add _ NInf = NInf"

fun fp_mul :: "fp \<Rightarrow> fp \<Rightarrow> fp" where
  "fp_mul (Fin a) (Fin b) = Fin (a * b)"
| "fp_mul NaN _ = NaN"
| "fp_mul _ NaN = NaN"
| "fp_mul (Fin a) PInf = (if a = 0 then NaN else signed_inf (0 < a))"
| "fp_mul (Fin a) NInf = (if a = 0 then NaN else signed_inf (a < 0))"
| "fp_mul PInf (Fin b) = (if b = 0 then NaN else signed_inf (0 < b))"
| "fp_mul NInf (Fin b) = (if b = 0 then NaN else signed_inf (b < 0))"
| "fp_mul PInf PInf = PInf"
| "fp_mul NInf NInf = PInf"
| "fp_mul PInf NInf = NInf"
| "fp_mul NInf PInf = NInf"

fun fp_div :: "fp \<Rightarrow> fp \<Rightarrow> fp" where
  "fp_div (Fin a) (Fin b) =
     (if b \<noteq> 0 then Fin (a / b) else if a = 0 then NaN else signed_inf (0 < a))"
| "fp_div NaN _ = NaN"
| "fp_div _ NaN = NaN"
| "fp_div (Fin a) _ = Fin 0"
| "fp_div PInf (Fin b) = signed_inf (0 \<le> b)"
| "fp_div NInf (Fin b) = signed_inf (b < 0)"
| "fp_div _ _ = NaN"

fun fp_less :: "fp \<Rightarrow> fp \<Rightarrow> bool" where
  "fp_less (Fin a) (Fin b) = (a < b)"
| "fp_less NaN _ = False"
| "fp_less _ NaN = False"
| "fp_less _ NInf = False"
| "fp_less PInf _ = False"
| "fp_less _ _ = True"

fun fp_le :: "fp \<Rightarrow> fp \<Rightarrow> bool" where
  "fp_le (Fin a) (Fin b) = (a \<le> b)"
| "fp_le NaN _ = False"
| "fp_le _ NaN = False"
| "fp_le NInf _ = True"
| "fp_le _ PInf = True"
| "fp_le _ _ = False"

text \<open>The C++ operators on floating-point operands, so that the model reads like the code.\<close>

instantiation fp :: "{plus, minus, uminus, times, inverse, ord}"
begin
definition plus_fp :: "fp \<Rightarrow> fp \<Rightarrow> fp" where "plus_fp a b = fp_add a b"
definition uminus_fp :: "fp \<Rightarrow> fp" where "uminus_fp a = fp_neg a"
definition minus_fp :: "fp \<Rightarrow> fp \<Rightarrow> fp" where "minus_fp a b = fp_add a (fp_neg b)"
definition times_fp :: "fp \<Rightarrow> fp \<Rightarrow> fp" where "times_fp a b = fp_mul a b"
definition inverse_fp :: "fp \<Rightarrow> fp" where "inverse_fp a = fp_div (Fin 1) a"
definition divide_fp :: "fp \<Rightarrow> fp \<Rightarrow> fp" where "divide_fp a b = fp_div a b"
definition less_fp :: "fp \<Rightarrow> fp \<Rightarrow> bool" where "less_fp a b = fp_less a b"
definition less_eq_fp :: "fp \<Rightarrow> fp \<Rightarrow> bool" where "less_eq_fp a b = fp_le a b"
instance ..
end

fun fp_sqrt :: "fp \<Rightarrow> fp" where
  "fp_sqrt (Fin a) = (if a < 0 then NaN else Fin (sqrt a))"
| "fp_sqrt PInf = PInf"
| "fp_sqrt _ = NaN"

fun fp_fabs :: "fp \<Rightarrow> fp" where
  "fp_fabs (Fin a) = Fin \<bar>a\<bar>"
| "fp_fabs NaN = NaN"
| "fp_fabs _ = PInf"

fun fp_cos :: "fp \<Rightarrow> fp" where
  "fp_cos (Fin a) = Fin (cos a)"
| "fp_cos _ = NaN"

fun fp_sin :: "fp \<Rightarrow> fp" where
  "fp_sin (Fin a) = Fin (sin a)"
| "fp_sin _ = NaN"

fun fp_tan :: "fp \<Rightarrow> fp" where
  "fp_tan (Fin a) = Fin (tan a)"
| "fp_tan _ = NaN"

text \<open>\<^verbatim>\<open>std::max(a, b)\<close> is \<^verbatim>\<open>(a < b) ? b : a\<close> and \<^verbatim>\<open>std::min(a, b)\<close> is
  \<^verbatim>\<open>(b < a) ? b : a\<close>: with a NaN operand both return the first argument.\<close>

definition std_max :: "fp \<Rightarrow> fp \<Rightarrow> fp" where
  "std_max a b = (if a < b then b else a)"

definition std_min :: "fp \<Rightarrow> fp \<Rightarrow> fp" where
  "std_min a b = (if b < a then b else a)"

section \<open>Machine integers\<close>

text \<open>
  A C++ \<^verbatim>\<open>int\<close> is a 32-bit two's complement value, modelled as an \<open>int\<close> with the
  wrap-around written out (signed overflow, formally undefined, wraps on the targets the
  renderer is built for). Integer division truncates towards zero; a zero divisor and
  \<^verbatim>\<open>INT_MIN / -1\<close> trap, which is the result \<open>None\<close>.
\<close>

definition INT_MAX :: int where "INT_MAX = 2147483647"
definition INT_MIN :: int where "INT_MIN = - 2147483648"

definition wrap32 :: "int \<Rightarrow> int" where
  "wrap32 v = (v + 2147483648) mod 4294967296 - 2147483648"

definition int_add :: "int \<Rightarrow> int \<Rightarrow> int" where "int_add a b = wrap32 (a + b)"
definition int_sub :: "int \<Rightarrow> int \<Rightarrow> int" where "int_sub a b = wrap32 (a - b)"
definition int_mul :: "int \<Rightarrow> int \<Rightarrow> int" where "int_mul a b = wrap32 (a * b)"

definition int_div :: "int \<Rightarrow> int \<Rightarrow> int option" where
  "int_div a b =
     (if b = 0 \<or> (a = INT_MIN \<and> b = - 1) then None
      else Some (sgn a * sgn b * (\<bar>a\<bar> div \<bar>b\<bar>)))"

text \<open>Reading \<^verbatim>\<open>xs[i]\<close> of an array or a \<^verbatim>\<open>std::vector\<close>: outside the bounds the
  behaviour is undefined, which is the result \<open>None\<close>.\<close>

definition array_get :: "'a list \<Rightarrow> int \<Rightarrow> 'a option" where
  "array_get xs i = (if 0 \<le> i \<and> i < int (length xs) then Some (xs ! nat i) else None)"

section \<open>The sampler\<close>

text \<open>\<^verbatim>\<open>hash\<close>: Thomas Wang's integer hash on \<^verbatim>\<open>uint32_t\<close>. The product with the 64-bit
  literal is stored back into 32 bits, which is the multiplication of 32-bit words.\<close>

definition hash :: "32 word \<Rightarrow> 32 word" where
  "hash x0 =
     (let x = (x0 XOR 12345391) * 2654435769;
          x = x XOR (push_bit 6 x XOR drop_bit 26 x);
          x = x * 2654435769;
          x = x + (push_bit 5 x XOR drop_bit 12 x)
      in x)"

text \<open>Modelled from the spec: the constant \<^verbatim>\<open>DoubleOneMinusEpsilon\<close> is declared outside
  \<^verbatim>\<open>Renderer.h\<close>; the radical inverse is "clamped below 1", so it is the largest
  \<^verbatim>\<open>double\<close> below 1.\<close>

definition DoubleOneMinusEpsilon :: fp where
  "DoubleOneMinusEpsilon = Fin (1 - 1 / 2 ^ 53)"

text \<open>The loop \<^verbatim>\<open>while (a)\<close> of \<^verbatim>\<open>RadicalInverse\<close>. It does not return for a base of
  1 or -1, so it is a partial function: not returning, like a trapping division, is the
  result \<open>None\<close>.\<close>

partial_function (option) RadicalInverse_loop ::
  "int \<Rightarrow> fp \<Rightarrow> int \<Rightarrow> int \<Rightarrow> fp \<Rightarrow> (int \<times> fp) option" where
  "RadicalInverse_loop base invBase a reversedDigits invBaseN =
     (if a \<noteq> 0 then
        do {
          next \<leftarrow> int_div a base;
          let digit = int_sub a (int_mul base next);
          RadicalInverse_loop base invBase next
            (int_add (int_mul reversedDigits base) digit) (invBaseN * invBase)
        }
      else Some (reversedDigits, invBaseN))"

definition RadicalInverse :: "int \<Rightarrow> int \<Rightarrow> fp option" where
  "RadicalInverse a base =
     do {
       let invBase = Fin 1 / Fin (of_int base);
       (reversedDigits, invBaseN) \<leftarrow> RadicalInverse_loop base invBase a 0 (Fin 1);
       Some (std_min (Fin (of_int reversedDigits) * invBaseN) DoubleOneMinusEpsilon)
     }"

text \<open>The digit reversal on unbounded integers: the value \<^verbatim>\<open>reversedDigits\<close> would
  reach without the 32-bit limit. It states when the accumulator of \<^verbatim>\<open>RadicalInverse\<close>
  does not overflow.\<close>

function rev_digits :: "int \<Rightarrow> int \<Rightarrow> int \<Rightarrow> int" where
  "rev_digits b a acc =
     (if a \<le> 0 \<or> b < 2 then acc else rev_digits b (a div b) (acc * b + a mod b))"
  by pat_completeness auto
termination
  by (relation "measure (\<lambda>(b, a, acc). nat a)") (auto simp: int_div_less_self)

declare rev_digits.simps [simp del]

text \<open>The bit pattern of an IEEE 754 single-precision number, as the union of
  \<^verbatim>\<open>uintToUnitReal\<close> reads it.\<close>

definition float_of_bits :: "32 word \<Rightarrow> fp" where
  "float_of_bits w =
     (let negative = bit w 31;
          e = unat (drop_bit 23 w AND 255);
          m = unat (w AND 8388607);
          s = (if negative then - 1 else 1)
      in if e = 255 then (if m = 0 then signed_inf (\<not> negative) else NaN)
         else if e = 0 then Fin (s * real m / 2 ^ 149)
         else if 127 \<le> e then Fin (s * (1 + real m / 2 ^ 23) * 2 ^ (e - 127))
         else Fin (s * (1 + real m / 2 ^ 23) / 2 ^ (127 - e)))"

text \<open>\<^verbatim>\<open>uintToUnitReal\<close>. The macro \<^verbatim>\<open>USE_DOUBLE\<close> is set outside \<^verbatim>\<open>Renderer.h\<close>, so it is
  a parameter.\<close>

definition uintToUnitReal :: "bool \<Rightarrow> 32 word \<Rightarrow> fp" where
  "uintToUnitReal USE_DOUBLE v =
     (if USE_DOUBLE then Fin (real (unat v)) * Fin (1 / 2 ^ 32)
      else float_of_bits (drop_bit 9 v OR 0x3f800000) - Fin 1)"

definition wrap1r :: "fp \<Rightarrow> fp \<Rightarrow> fp" where
  "wrap1r u v = (if u + v < Fin 1 then u + v else u + v - Fin 1)"

text \<open>\<^verbatim>\<open>wrap6i\<close> returns the old value of its reference argument and updates it: the
  result is the pair (returned value, new value of \<^verbatim>\<open>v\<close>).\<close>

definition wrap6i :: "int \<Rightarrow> int \<times> int" where
  "wrap6i v = (let o' = v; u = int_add o' 1 in (o', if u < 6 then u else 0))"

definition sign :: "fp \<Rightarrow> fp" where
  "sign v = (if v \<ge> Fin 0 then Fin 1 else Fin (- 1))"

definition triDist :: "fp \<Rightarrow> fp" where
  "triDist v0 =
     (let orig = v0 * Fin 2 - Fin 1;
          v = orig / fp_sqrt (fp_fabs orig);
          v = std_max (Fin (- 1)) v;
          v = v - sign orig
      in v)"

section \<open>Vectors, materials and the scene\<close>

text \<open>Modelled from the spec: the vector types \<^verbatim>\<open>vec3f\<close> and \<^verbatim>\<open>vec3r\<close> and their operators
  are declared outside \<^verbatim>\<open>Renderer.h\<close>; they are the usual componentwise operations of
  "vector/linear-algebra primitives". Both types are one type here, as \<^verbatim>\<open>float\<close> and
  \<^verbatim>\<open>real\<close> are.\<close>

datatype vec3 = Vec3 (vx: fp) (vy: fp) (vz: fp)

instantiation vec3 :: "{plus, minus, times}"
begin
definition plus_vec3 :: "vec3 \<Rightarrow> vec3 \<Rightarrow> vec3" where
  "plus_vec3 a b = Vec3 (vx a + vx b) (vy a + vy b) (vz a + vz b)"
definition minus_vec3 :: "vec3 \<Rightarrow> vec3 \<Rightarrow> vec3" where
  "minus_vec3 a b = Vec3 (vx a - vx b) (vy a - vy b) (vz a - vz b)"
definition times_vec3 :: "vec3 \<Rightarrow> vec3 \<Rightarrow> vec3" where
  "times_vec3 a b = Vec3 (vx a * vx b) (vy a * vy b) (vz a * vz b)"
instance ..
end

text \<open>A vector built from one scalar (\<^verbatim>\<open>vec3f v = 1\<close>), and the operators with a scalar on
  the right: \<^verbatim>\<open>v * s\<close>, \<^verbatim>\<open>v / s\<close> and \<^verbatim>\<open>v + s\<close>.\<close>

definition vec_splat :: "fp \<Rightarrow> vec3" where
  "vec_splat s = Vec3 s s s"

definition vec_scale :: "vec3 \<Rightarrow> fp \<Rightarrow> vec3" where
  "vec_scale v s = Vec3 (vx v * s) (vy v * s) (vz v * s)"

definition vec_div :: "vec3 \<Rightarrow> fp \<Rightarrow> vec3" where
  "vec_div v s = Vec3 (vx v / s) (vy v / s) (vz v / s)"

definition vec_adds :: "vec3 \<Rightarrow> fp \<Rightarrow> vec3" where
  "vec_adds v s = Vec3 (vx v + s) (vy v + s) (vz v + s)"

definition dot :: "vec3 \<Rightarrow> vec3 \<Rightarrow> fp" where
  "dot a b = vx a * vx b + vy a * vy b + vz a * vz b"

definition cross :: "vec3 \<Rightarrow> vec3 \<Rightarrow> vec3" where
  "cross a b =
     Vec3 (vy a * vz b - vz a * vy b) (vz a * vx b - vx a * vz b) (vx a * vy b - vy a * vx b)"

definition normalise :: "vec3 \<Rightarrow> vec3" where
  "normalise v = vec_scale v (Fin 1 / fp_sqrt (dot v v))"

text \<open>Modelled from the spec: the constant \<^verbatim>\<open>two_pi\<close> is declared outside \<^verbatim>\<open>Renderer.h\<close>.\<close>

definition two_pi :: fp where
  "two_pi = Fin (2 * pi)"

datatype Ray = Ray (ray_o: vec3) (ray_d: vec3)

text \<open>Modelled from the spec: \<^verbatim>\<open>Material\<close> is declared in \<^verbatim>\<open>Scene.h\<close>, outside the sources:
  "diffuse albedo, emission, a boolean flag selecting Fresnel-weighted specular behavior, and
  a base reflectance coefficient (r0)". Its fields carry the prefix \<open>m_\<close>, since \<open>albedo\<close>
  is also a field of \<^verbatim>\<open>RenderOutput\<close>.\<close>

record Material =
  m_albedo :: vec3
  m_emission :: vec3
  m_use_fresnel :: bool
  m_r0 :: fp

text \<open>Modelled from the spec: \<^verbatim>\<open>Scene\<close> is declared in \<^verbatim>\<open>Scene.h\<close>, outside the sources. Its
  interface (section 6 of the spec) is a parameter of the renderer: \<open>'s\<close> is the state of a
  scene object and \<open>'o\<close> a surface handle. \<^verbatim>\<open>render\<close> takes the scene by non-const
  reference, so a query returns the scene's state with its answer; \<open>copy_scene\<close> is the
  copy constructor the worker thread calls.\<close>

record ('s, 'o) Scene =
  nearestIntersection :: "'s \<Rightarrow> Ray \<Rightarrow> ('o option \<times> fp) \<times> 's"
  getNormal :: "'s \<Rightarrow> 'o \<Rightarrow> vec3 \<Rightarrow> vec3 \<times> 's"
  mat :: "'o \<Rightarrow> Material"
  copy_scene :: "'s \<Rightarrow> 's"

section \<open>The accumulation buffer\<close>

record RenderOutput =
  xres :: int
  yres :: int
  passes :: int
  beauty :: "vec3 list"
  normal :: "vec3 list"
  albedo :: "vec3 list"

section \<open>The path integrator\<close>

text \<open>
  The state of one path: the local variables of \<^verbatim>\<open>render\<close> that its loop changes, the scene,
  and a ghost log \<open>events\<close> of what the loop did (each query of the scene and each divisor of
  the Russian roulette). No value the loop computes depends on the log (lemma
  \<open>path_loop_log\<close>).
\<close>

datatype event = Intersect Ray | ShadowRay Ray | RouletteDivide fp

record 's path =
  ray :: Ray
  contribution :: vec3
  throughput :: vec3
  normal_out :: vec3
  albedo_out :: vec3
  bounce :: int
  dim :: int
  scene :: 's
  events :: "event list"

datatype 'a step = Break 'a | Continue 'a

definition primes :: "int list" where
  "primes = [2, 3, 5, 7, 11, 13]"

text \<open>The expression \<^verbatim>\<open>wrap1r((real)RadicalInverse(pass, primes[wrap6i(dim)]), hash_random)\<close>,
  which draws the next sample: the result is the sample and the new value of \<^verbatim>\<open>dim\<close>.\<close>

definition next_sample :: "int \<Rightarrow> fp \<Rightarrow> int \<Rightarrow> (fp \<times> int) option" where
  "next_sample pass hash_random dim0 =
     (let (i, dim1) = wrap6i dim0
      in do {
        base \<leftarrow> array_get primes i;
        r \<leftarrow> RadicalInverse pass base;
        Some (wrap1r r hash_random, dim1)
      })"

text \<open>The sky colour of a ray that hits nothing.\<close>

definition sky_colour :: "Ray \<Rightarrow> vec3" where
  "sky_colour r =
     (let sky_up = vec_scale (vec_scale (Vec3 (Fin 53) (Fin 112) (Fin 128)) (Fin 1 / Fin 255))
                     (Fin (75 / 100));
          sky_hz = vec_scale (vec_scale (Vec3 (Fin 182) (Fin 175) (Fin 157)) (Fin 1 / Fin 255))
                     (Fin (8 / 10));
          height = Fin 1 - std_max (Fin 0) (vy (ray_d r));
          height2 = height * height;
          sky = sky_up + vec_scale (vec_scale (sky_hz - sky_up) height2) height2
      in sky)"

text \<open>The Schlick Fresnel choice between a specular and a diffuse bounce: the result is
  \<^verbatim>\<open>sample_specular\<close>, the effective \<^verbatim>\<open>albedo\<close> and the new value of \<^verbatim>\<open>dim\<close>.\<close>

definition select_event ::
  "Material \<Rightarrow> vec3 \<Rightarrow> Ray \<Rightarrow> int \<Rightarrow> fp \<Rightarrow> int \<Rightarrow> (bool \<times> vec3 \<times> int) option" where
  "select_event m hit_normal r pass hash_random dim0 =
     (if m_use_fresnel m then
        let r0 = m_r0 m;
            p1 = Fin 1 - fp_fabs (dot hit_normal (ray_d r));
            p2 = p1 * p1;
            fresnel = r0 + (Fin 1 - r0) * p2 * p2 * p1
        in do {
          (mat_u, dim1) \<leftarrow> next_sample pass hash_random dim0;
          let sample_specular = mat_u < fresnel;
          Some (sample_specular,
                if sample_specular then vec_splat (Fin (95 / 100)) else m_albedo m, dim1)
        }
      else Some (False, m_albedo m, dim0))"

text \<open>Direct lighting from the fixed point light: the result is the new \<^verbatim>\<open>contribution\<close>, the
  scene after the shadow query, and the log.\<close>

definition direct_light ::
  "('s, 'o) Scene \<Rightarrow> 's \<Rightarrow> bool \<Rightarrow> vec3 \<Rightarrow> vec3 \<Rightarrow> vec3 \<Rightarrow> vec3 \<Rightarrow> vec3 \<Rightarrow> event list \<Rightarrow>
   vec3 \<times> 's \<times> event list" where
  "direct_light S sc sample_specular hit_p hit_normal eff_albedo thr contrib evs =
     (if \<not> sample_specular then
        let light_pos = Vec3 (Fin 8) (Fin 12) (Fin (- 6));
            light_vec = light_pos - hit_p;
            n_dot_l = dot hit_normal light_vec
        in if n_dot_l > Fin 0 then
             let light_ln2 = dot light_vec light_vec;
                 light_len = fp_sqrt light_ln2;
                 light_dir = vec_scale light_vec (Fin 1 / light_len);
                 refl_colour =
                   vec_scale (vec_div (vec_scale eff_albedo n_dot_l) (light_ln2 * light_len))
                     (Fin 720);
                 shadow_ray = Ray hit_p light_dir;
                 ((shadow_nearest_hit_obj, shadow_nearest_hit_t), sc1) =
                   nearestIntersection S sc shadow_ray
             in (if shadow_nearest_hit_obj = None \<or> shadow_nearest_hit_t \<ge> light_len
                 then contrib + thr * refl_colour else contrib,
                 sc1, evs @ [ShadowRay shadow_ray])
           else (contrib, sc, evs)
      else (contrib, sc, evs))"

text \<open>Russian roulette on the albedo, after more than two bounces.\<close>

definition roulette :: "int \<Rightarrow> fp \<Rightarrow> fp \<Rightarrow> 's path \<Rightarrow> 's path step option" where
  "roulette pass hash_random max_albedo st =
     (if bounce st > 2 then
        do {
          (rr_u, dim1) \<leftarrow> next_sample pass hash_random (dim st);
          let st = st\<lparr>dim := dim1\<rparr>;
          let rr_thresh = std_max (Fin 0) (std_min (Fin 1) max_albedo);
          if rr_u > rr_thresh then Some (Break st)
          else Some (Continue (st\<lparr>throughput := vec_scale (throughput st) (Fin 1 / rr_thresh),
                                    events := events st @ [RouletteDivide rr_thresh]\<rparr>))
        }
      else Some (Continue st))"

text \<open>The direction of the next ray: the result is \<^verbatim>\<open>new_dir\<close> and the new value of
  \<^verbatim>\<open>dim\<close>.\<close>

definition scatter :: "bool \<Rightarrow> vec3 \<Rightarrow> Ray \<Rightarrow> int \<Rightarrow> fp \<Rightarrow> int \<Rightarrow> (vec3 \<times> int) option" where
  "scatter sample_specular hit_normal r pass hash_random dim0 =
     (if sample_specular then
        Some (ray_d r - vec_scale hit_normal (Fin 2 * dot hit_normal (ray_d r)), dim0)
      else
        do {
          (refl_sample_x, dim1) \<leftarrow> next_sample pass hash_random dim0;
          (refl_sample_y, dim2) \<leftarrow> next_sample pass hash_random dim1;
          let a = refl_sample_x * two_pi;
          let s = Fin 2 * fp_sqrt (std_max (Fin 0) (refl_sample_y * (Fin 1 - refl_sample_y)));
          let sphere = Vec3 (fp_cos a * s) (fp_sin a * s) (Fin 1 - Fin 2 * refl_sample_y);
          Some (normalise (hit_normal + sphere), dim2)
        })"

text \<open>The end of the loop body, from \<^verbatim>\<open>if (++bounce > max_bounces)\<close> on: the bounce limit,
  the zero-albedo test, the roulette, the new direction and the update of the ray. \<open>Break\<close>
  where the code leaves the loop, \<open>Continue\<close> where it reaches the end of the body. The
  counter \<^verbatim>\<open>bounce\<close> stays between 0 and 6, so its increment does not overflow.\<close>

definition advance ::
  "int \<Rightarrow> fp \<Rightarrow> bool \<Rightarrow> vec3 \<Rightarrow> vec3 \<Rightarrow> vec3 \<Rightarrow> 's path \<Rightarrow> 's path step option" where
  "advance pass hash_random sample_specular hit_p hit_normal eff_albedo st0 =
     (let st = st0\<lparr>bounce := bounce st0 + 1\<rparr>
      in if bounce st > 5 then Some (Break st)
         else
           let max_albedo = std_max (std_max (vx eff_albedo) (vy eff_albedo)) (vz eff_albedo)
           in if max_albedo < Fin (1 / 10 ^ 8) then Some (Break st)
              else do {
                r \<leftarrow> roulette pass hash_random max_albedo st;
                case r of
                  Break st \<Rightarrow> Some (Break st)
                | Continue st \<Rightarrow> do {
                    (new_dir, dim2) \<leftarrow>
                      scatter sample_specular hit_normal (ray st) pass hash_random (dim st);
                    Some (Continue (st\<lparr>dim := dim2,
                                        throughput := throughput st * eff_albedo,
                                        ray := Ray hit_p new_dir\<rparr>))
                  }
              })"

text \<open>The loop body for a ray that hits the surface \<^verbatim>\<open>nearest_hit_obj\<close> at distance
  \<^verbatim>\<open>nearest_hit_t\<close>. The local \<^verbatim>\<open>normal\<close> is \<open>hit_normal\<close> and the local \<^verbatim>\<open>albedo\<close> is
  \<open>eff_albedo\<close> (the names are fields of \<^verbatim>\<open>RenderOutput\<close>).\<close>

definition surface_hit ::
  "('s, 'o) Scene \<Rightarrow> int \<Rightarrow> fp \<Rightarrow> 'o \<Rightarrow> fp \<Rightarrow> 's path \<Rightarrow> 's path step option" where
  "surface_hit S pass hash_random nearest_hit_obj nearest_hit_t st0 =
     (let hit_p = ray_o (ray st0) + vec_scale (ray_d (ray st0)) nearest_hit_t;
          (hit_normal, sc2) = getNormal S (scene st0) nearest_hit_obj hit_p;
          m = mat S nearest_hit_obj;
          st = (if bounce st0 = 0
                then st0\<lparr>normal_out :=
                            vec_adds (vec_scale (Vec3 (vx hit_normal) (vz hit_normal)
                                                   (vy hit_normal)) (Fin (5 / 10)))
                              (Fin (5 / 10)),
                          albedo_out := m_albedo m\<rparr>
                else st0);
          st = st\<lparr>scene := sc2,
                  contribution := contribution st + throughput st * m_emission m\<rparr>
      in do {
        (sample_specular, eff_albedo, dim1) \<leftarrow>
          select_event m hit_normal (ray st) pass hash_random (dim st);
        let (contrib, sc3, evs) =
          direct_light S (scene st) sample_specular hit_p hit_normal eff_albedo
            (throughput st) (contribution st) (events st);
        advance pass hash_random sample_specular hit_p hit_normal eff_albedo
          (st\<lparr>dim := dim1, contribution := contrib, scene := sc3, events := evs\<rparr>)
      })"

text \<open>One iteration of the loop \<^verbatim>\<open>while (true)\<close> of \<^verbatim>\<open>render\<close>: the intersection test, and
  the sky colour for a ray that hits nothing.\<close>

definition bounce_step ::
  "('s, 'o) Scene \<Rightarrow> int \<Rightarrow> fp \<Rightarrow> 's path \<Rightarrow> 's path step option" where
  "bounce_step S pass hash_random st0 =
     (let ((nearest_hit_obj, nearest_hit_t), sc1) = nearestIntersection S (scene st0) (ray st0);
          st = st0\<lparr>scene := sc1, events := events st0 @ [Intersect (ray st0)]\<rparr>
      in case nearest_hit_obj of
           None \<Rightarrow>
             Some (Break (st\<lparr>contribution :=
                               contribution st + throughput st * sky_colour (ray st)\<rparr>))
         | Some obj \<Rightarrow> surface_hit S pass hash_random obj nearest_hit_t st)"

lemma roulette_Continue:
  "roulette pass hash_random max_albedo st = Some (Continue st') \<Longrightarrow> bounce st' = bounce st"
  by (auto simp: roulette_def Let_def split: if_splits prod.splits Option.bind_splits)

lemma advance_Continue:
  "advance pass hash_random sample_specular hit_p hit_normal eff_albedo st = Some (Continue st') \<Longrightarrow>
   bounce st' = bounce st + 1 \<and> bounce st' \<le> 5"
  by (auto simp: advance_def Let_def
      split: if_splits prod.splits Option.bind_splits step.splits dest!: roulette_Continue)

lemma surface_hit_Continue:
  "surface_hit S pass hash_random obj t st = Some (Continue st') \<Longrightarrow>
   bounce st' = bounce st + 1 \<and> bounce st' \<le> 5"
  by (auto simp: surface_hit_def Let_def
      split: if_splits prod.splits Option.bind_splits dest!: advance_Continue)

lemma bounce_step_Continue:
  "bounce_step S pass hash_random st = Some (Continue st') \<Longrightarrow>
   bounce st' = bounce st + 1 \<and> bounce st' \<le> 5"
  by (auto simp: bounce_step_def Let_def
      split: prod.splits option.splits dest!: surface_hit_Continue)

text \<open>The loop \<^verbatim>\<open>while (true)\<close> of \<^verbatim>\<open>render\<close>: it returns the state in which the loop is
  left.\<close>

function path_loop :: "('s, 'o) Scene \<Rightarrow> int \<Rightarrow> fp \<Rightarrow> 's path \<Rightarrow> 's path option" where
  "path_loop S pass hash_random st =
     (case bounce_step S pass hash_random st of
        None \<Rightarrow> None
      | Some (Break st') \<Rightarrow> Some st'
      | Some (Continue st') \<Rightarrow> path_loop S pass hash_random st')"
  by pat_completeness auto
termination
proof (relation "measure (\<lambda>(S, pass, hash_random, st). nat (6 - bounce st))", goal_cases)
  case 1
  show ?case by simp
next
  case (2 S pass hash_random st x2 st')
  then have "bounce_step S pass hash_random st = Some (Continue st')" by simp
  from bounce_step_Continue[OF this] show ?case by simp
qed

declare path_loop.simps [simp del]

section \<open>The per-pixel evaluation\<close>

text \<open>\<^verbatim>\<open>output.beauty[pixel_idx] += contribution\<close> on a \<^verbatim>\<open>std::vector\<close>.\<close>

definition add_at :: "vec3 list \<Rightarrow> int \<Rightarrow> vec3 \<Rightarrow> vec3 list option" where
  "add_at xs i v = do { old \<leftarrow> array_get xs i; Some (xs[nat i := old + v]) }"

text \<open>The camera ray of \<^verbatim>\<open>render\<close> (from \<^verbatim>\<open>aspect_ratio\<close> to \<^verbatim>\<open>ray_d\<close>): the result is the ray
  \<^verbatim>\<open>{ ray_p, ray_d }\<close> and the value of \<^verbatim>\<open>dim\<close> after its two or three samples. The local
  variables \<^verbatim>\<open>xres\<close> and \<^verbatim>\<open>yres\<close> are \<open>xres'\<close> and \<open>yres'\<close> (the names are fields of
  \<^verbatim>\<open>RenderOutput\<close>).\<close>

definition camera_ray ::
  "int \<Rightarrow> int \<Rightarrow> int \<Rightarrow> int \<Rightarrow> int \<Rightarrow> int \<Rightarrow> int \<Rightarrow> fp \<Rightarrow> (Ray \<times> int) option" where
  "camera_ray x y frame pass frames xres' yres' hash_random =
     (let aspect_ratio = Fin (of_int xres') / Fin (of_int yres');
          fov_deg = Fin 80;
          fov_rad = fov_deg * two_pi / Fin 360;
          sensor_width = Fin 2 * fp_tan (fov_rad / Fin 2);
          sensor_height = sensor_width / aspect_ratio
      in do {
        (u1, dim1) \<leftarrow> next_sample pass hash_random 0;
        let pixel_sample_x = triDist u1;
        (u2, dim2) \<leftarrow> next_sample pass hash_random dim1;
        let pixel_sample_y = triDist u2;
        (time, dim3) \<leftarrow>
          (if frames \<le> 0 then Some (Fin 0, dim2)
           else do {
             (u3, dim3) \<leftarrow> next_sample pass hash_random dim2;
             Some (two_pi * (Fin (of_int frame) + triDist u3) / Fin (of_int frames), dim3)
           });
        let cos_t = fp_cos time;
        let sin_t = fp_sin time;
        let cam_lookat = Vec3 (Fin 0) (Fin (- (125 / 1000))) (Fin 0);
        let world_up = Vec3 (Fin 0) (Fin 1) (Fin 0);
        let cam_pos =
          vec_scale (Vec3 (Fin 4 * cos_t + Fin 10 * sin_t) (Fin 5)
                       (Fin (- 10) * cos_t + Fin 4 * sin_t)) (Fin (3 / 10));
        let cam_forward = normalise (cam_lookat - cam_pos);
        let cam_right = cross world_up cam_forward;
        let cam_up = cross cam_forward cam_right;
        let pixel_x = vec_scale cam_right (sensor_width / Fin (of_int xres'));
        let pixel_y = vec_scale cam_up (- (sensor_height / Fin (of_int yres')));
        let pixel_v =
          cam_forward +
          vec_scale pixel_x
            (Fin (of_int x) - Fin (of_int xres') * Fin (5 / 10) + pixel_sample_x + Fin (5 / 10)) +
          vec_scale pixel_y
            (Fin (of_int y) - Fin (of_int yres') * Fin (5 / 10) + pixel_sample_y + Fin (5 / 10));
        let ray_p = cam_pos;
        let ray_d = normalise pixel_v;
        Some (Ray ray_p ray_d, dim3)
      })"

text \<open>\<^verbatim>\<open>render\<close>: the pixel index and the hash, the camera ray, the path, and the three
  additions into the buffer. The result is the scene and the buffer after the call.\<close>

definition render ::
  "('s, 'o) Scene \<Rightarrow> bool \<Rightarrow> int \<Rightarrow> int \<Rightarrow> int \<Rightarrow> int \<Rightarrow> int \<Rightarrow> 's \<Rightarrow> RenderOutput \<Rightarrow>
   ('s \<times> RenderOutput) option" where
  "render S USE_DOUBLE x y frame pass frames sc output =
     (let xres' = xres output;
          yres' = yres output;
          pixel_idx = int_add (int_mul y xres') x;
          hash_random =
            uintToUnitReal USE_DOUBLE
              (hash (word_of_int (int_add (int_mul (int_mul frame xres') yres') pixel_idx)))
      in do {
        (r, dim3) \<leftarrow> camera_ray x y frame pass frames xres' yres' hash_random;
        st \<leftarrow> path_loop S pass hash_random
               \<lparr>ray = r, contribution = vec_splat (Fin 0), throughput = vec_splat (Fin 1),
                normal_out = vec_splat (Fin 0), albedo_out = vec_splat (Fin 0), bounce = 0,
                dim = dim3, scene = sc, events = []\<rparr>;
        beauty' \<leftarrow> add_at (beauty output) pixel_idx (contribution st);
        normal' \<leftarrow> add_at (normal output) pixel_idx (normal_out st);
        albedo' \<leftarrow> add_at (albedo output) pixel_idx (albedo_out st);
        Some (scene st, output\<lparr>beauty := beauty', normal := normal', albedo := albedo'\<rparr>)
      })"

section \<open>The bucket scheduler\<close>

text \<open>\<^verbatim>\<open>next_bucket\<close> is a \<^verbatim>\<open>std::atomic<int>\<close>; the scheduler is modelled for one
  thread, so \<^verbatim>\<open>fetch_add(1)\<close> is a read followed by a (wrapping) increment.\<close>

record ThreadControl =
  num_passes :: int
  next_bucket :: int

text \<open>The loop \<^verbatim>\<open>for (int i = lo; i < hi; ++i) body\<close> over a state, where the body can
  fail. As \<^verbatim>\<open>i < hi\<close>, the increment does not overflow.\<close>

function for_loop :: "int \<Rightarrow> int \<Rightarrow> (int \<Rightarrow> 'a \<Rightarrow> 'a option) \<Rightarrow> 'a \<Rightarrow> 'a option" where
  "for_loop i hi body s =
     (if i < hi then do { s' \<leftarrow> body i s; for_loop (i + 1) hi body s' } else Some s)"
  by pat_completeness auto
termination
  by (relation "measure (\<lambda>(i, hi, body, s). nat (hi - i))") auto

declare for_loop.simps [simp del]

lemma wrap32_id: "- 2147483648 \<le> v \<Longrightarrow> v \<le> 2147483647 \<Longrightarrow> wrap32 v = v"
  by (simp add: wrap32_def)

lemma wrap32_ge: "v \<le> 2147483647 \<Longrightarrow> v \<le> wrap32 v"
proof (cases "- 2147483648 \<le> v")
  case True
  assume "v \<le> 2147483647"
  with True show ?thesis by (simp add: wrap32_id)
next
  case False
  have "0 \<le> (v + 2147483648) mod 4294967296" by simp
  then have "- 2147483648 \<le> wrap32 v" by (simp add: wrap32_def)
  with False show ?thesis by linarith
qed

lemma wrap32_le: "wrap32 v \<le> 2147483647"
proof -
  have "(v + 2147483648) mod 4294967296 < 4294967296" by simp
  then show ?thesis by (simp add: wrap32_def)
qed

text \<open>The loop \<^verbatim>\<open>while (true)\<close> of \<^verbatim>\<open>renderThreadFunction\<close>. The call of \<^verbatim>\<open>render\<close> in
  its body is the parameter \<open>rend\<close> (applied to \<^verbatim>\<open>x\<close>, \<^verbatim>\<open>y\<close> and the pass), and \<open>s\<close> is
  the state that call works on.\<close>

function bucket_loop ::
  "(int \<Rightarrow> int \<Rightarrow> int \<Rightarrow> 'a \<Rightarrow> 'a option) \<Rightarrow> int \<Rightarrow> int \<Rightarrow> int \<Rightarrow> int \<Rightarrow> int \<Rightarrow>
   ThreadControl \<Rightarrow> 'a \<Rightarrow> (ThreadControl \<times> 'a) option" where
  "bucket_loop rend xres' yres' x_buckets num_buckets base_pass thread_control s =
     (let bucket = next_bucket thread_control;
          thread_control = thread_control\<lparr>next_bucket := int_add bucket 1\<rparr>
      in if bucket \<ge> int_mul num_buckets (num_passes thread_control) then Some (thread_control, s)
         else do {
           sub_pass \<leftarrow> int_div bucket num_buckets;
           let bucket_p = int_sub bucket (int_mul num_buckets sub_pass);
           bucket_y \<leftarrow> int_div bucket_p x_buckets;
           let bucket_x = int_sub bucket_p (int_mul x_buckets bucket_y);
           let bucket_x0 = int_mul bucket_x 32;
           let bucket_x1 = min (int_add bucket_x0 32) xres';
           let bucket_y0 = int_mul bucket_y 32;
           let bucket_y1 = min (int_add bucket_y0 32) yres';
           s' \<leftarrow> for_loop bucket_y0 bucket_y1
                  (\<lambda>y. for_loop bucket_x0 bucket_x1
                     (\<lambda>x. rend x y (int_add base_pass sub_pass))) s;
           bucket_loop rend xres' yres' x_buckets num_buckets base_pass thread_control s'
         })"
  by pat_completeness auto
termination
proof (relation "measure (\<lambda>(rend, xr, yr, xb, nb, bp, tc, s).
          nat (int_mul nb (num_passes tc) - next_bucket tc))", goal_cases)
  case 1
  show ?case by simp
next
  case (2 rend xres' yres' x_buckets num_buckets base_pass thread_control s bucket tc')
  have "int_mul num_buckets (num_passes thread_control) \<le> 2147483647"
    by (simp add: int_mul_def wrap32_le)
  with 2 have "next_bucket thread_control + 1 \<le> 2147483647" by simp
  then have "next_bucket thread_control + 1 \<le> int_add (next_bucket thread_control) 1"
    by (simp add: int_add_def wrap32_ge)
  with 2 show ?case by simp
qed


declare bucket_loop.simps [simp del]

text \<open>The body of \<^verbatim>\<open>renderThreadFunction\<close> after the scene has been copied, for any
  per-pixel call \<open>rend\<close>.\<close>

definition render_buckets ::
  "(int \<Rightarrow> int \<Rightarrow> int \<Rightarrow> 'a \<Rightarrow> 'a option) \<Rightarrow> int \<Rightarrow> int \<Rightarrow> int \<Rightarrow>
   ThreadControl \<Rightarrow> 'a \<Rightarrow> (ThreadControl \<times> 'a) option" where
  "render_buckets rend xres' yres' base_pass thread_control s =
     do {
       x_buckets \<leftarrow> int_div (int_sub (int_add xres' 32) 1) 32;
       y_buckets \<leftarrow> int_div (int_sub (int_add yres' 32) 1) 32;
       let num_buckets = int_mul x_buckets y_buckets;
       bucket_loop rend xres' yres' x_buckets num_buckets base_pass thread_control s
     }"

text \<open>\<^verbatim>\<open>renderThreadFunction\<close>: the per-pixel call is \<^verbatim>\<open>render\<close> on the thread's copy of the
  scene and the shared buffer (the parameter \<^verbatim>\<open>scene_\<close> is \<open>scene0\<close>). The result is the
  thread control and the buffer after the run.\<close>

definition renderThreadFunction ::
  "('s, 'o) Scene \<Rightarrow> bool \<Rightarrow> ThreadControl \<Rightarrow> RenderOutput \<Rightarrow> int \<Rightarrow> int \<Rightarrow> int \<Rightarrow> 's \<Rightarrow>
   (ThreadControl \<times> RenderOutput) option" where
  "renderThreadFunction S USE_DOUBLE thread_control output frame base_pass frames scene0 =
     (let xres' = xres output;
          yres' = yres output;
          sc = copy_scene S scene0
      in do {
        (thread_control', sc', output') \<leftarrow>
          render_buckets
            (\<lambda>x y pass (sc, out). render S USE_DOUBLE x y frame pass frames sc out)
            xres' yres' base_pass thread_control (sc, output);
        Some (thread_control', output')
      })"

text \<open>A per-pixel call that only records its arguments \<^verbatim>\<open>(x, y, pass)\<close>: with it the
  scheduler returns the list of the calls of \<^verbatim>\<open>render\<close> it makes, in order.\<close>

definition log_call ::
  "int \<Rightarrow> int \<Rightarrow> int \<Rightarrow> (int \<times> int \<times> int) list \<Rightarrow> (int \<times> int \<times> int) list option" where
  "log_call x y pass calls = Some (calls @ [(x, y, pass)])"

section \<open>Definitions for stating the properties\<close>

text \<open>The calls of bucket \<open>k\<close>, row by row.\<close>

definition bucket_rows :: "int \<Rightarrow> int \<Rightarrow> int \<Rightarrow> int \<Rightarrow> int \<Rightarrow> int \<Rightarrow> (int \<times> int \<times> int) list" where
  "bucket_rows xr yr xb nb bp k =
     concat (map (\<lambda>y. map (\<lambda>x. (x, y, bp + k div nb))
                          [(k mod nb) mod xb * 32..min ((k mod nb) mod xb * 32 + 32) xr - 1])
                 [(k mod nb) div xb * 32..min ((k mod nb) div xb * 32 + 32) yr - 1])"

text \<open>The index of the bucket that makes a given call.\<close>

definition call_key :: "int \<Rightarrow> int \<Rightarrow> int \<Rightarrow> int \<times> int \<times> int \<Rightarrow> int" where
  "call_key xb nb bp c = (snd (snd c) - bp) * nb + (fst (snd c) div 32) * xb + fst c div 32"

text \<open>One call for every pixel of the image and every sub-pass.\<close>

definition all_calls :: "int \<Rightarrow> int \<Rightarrow> int \<Rightarrow> int \<Rightarrow> (int \<times> int \<times> int) set" where
  "all_calls xr yr bp P =
     {(x, y, p). 0 \<le> x \<and> x < xr \<and> 0 \<le> y \<and> y < yr \<and> bp \<le> p \<and> p < bp + P}"

text \<open>A list of calls \<^verbatim>\<open>(x, y, pass)\<close> made one after the other, each on the state the
  previous one has left.\<close>

fun run_calls ::
  "(int \<Rightarrow> int \<Rightarrow> int \<Rightarrow> 'a \<Rightarrow> 'a option) \<Rightarrow> (int \<times> int \<times> int) list \<Rightarrow> 'a \<Rightarrow> 'a option" where
  "run_calls rend [] s = Some s"
| "run_calls rend ((x, y, pass) # cs) s = do { s' \<leftarrow> rend x y pass s; run_calls rend cs s' }"

text \<open>The calls of all buckets \<open>0 .. num_buckets * P - 1\<close>, in the order of the buckets.\<close>

definition schedule :: "int \<Rightarrow> int \<Rightarrow> int \<Rightarrow> int \<Rightarrow> (int \<times> int \<times> int) list" where
  "schedule xr yr bp P =
     (let xb = (xr + 31) div 32; yb = (yr + 31) div 32; nb = xb * yb
      in concat (map (bucket_rows xr yr xb nb bp) [0..nb * P - 1]))"

text \<open>The state a step ends in, and the number of intersection tests of the loop in a
  log.\<close>

fun the_state :: "'a step \<Rightarrow> 'a" where
  "the_state (Break s) = s"
| "the_state (Continue s) = s"

fun is_Intersect :: "event \<Rightarrow> bool" where
  "is_Intersect (Intersect r) = True"
| "is_Intersect _ = False"

definition intersections :: "event list \<Rightarrow> nat" where
  "intersections evs = length (filter is_Intersect evs)"

text \<open>Two path states that differ at most in the log.\<close>

definition same_path :: "'s path \<Rightarrow> 's path \<Rightarrow> bool" where
  "same_path a b = (a\<lparr>events := []\<rparr> = b\<lparr>events := []\<rparr>)"

text \<open>A divisor of the roulette is at least \<open>1e-8\<close> and at most 1.\<close>

fun divisor_ok :: "event \<Rightarrow> bool" where
  "divisor_ok (RouletteDivide d) = (Fin (1 / 10 ^ 8) \<le> d \<and> d \<le> Fin 1)"
| "divisor_ok _ = True"

text \<open>The sky colour in the words of the spec: the interpolation between two fixed colours
  driven by \<open>h^4\<close> with \<open>h = 1 - max(0, ray.direction.y)\<close>.\<close>

definition sky_gradient :: "fp \<Rightarrow> vec3" where
  "sky_gradient dy =
     (let colour_up = Vec3 (Fin (53 / 255 * (75 / 100))) (Fin (112 / 255 * (75 / 100)))
                        (Fin (128 / 255 * (75 / 100)));
          colour_horizon = Vec3 (Fin (182 / 255 * (8 / 10))) (Fin (175 / 255 * (8 / 10)))
                             (Fin (157 / 255 * (8 / 10)));
          h = Fin 1 - std_max (Fin 0) dy;
          h4 = h * h * h * h
      in colour_up + vec_scale (colour_horizon - colour_up) h4)"

text \<open>A scene for the witnesses: every ray hits, at distance 1, a perfect mirror with the
  normal \<open>(0, 0, 1)\<close>. A path that starts along that normal bounces until the bounce limit
  ends it.\<close>

definition mirror_scene :: "(unit, unit) Scene" where
  "mirror_scene =
     \<lparr>nearestIntersection = (\<lambda>s r. ((Some (), Fin 1), s)),
      getNormal = (\<lambda>s obj p. (Vec3 (Fin 0) (Fin 0) (Fin 1), s)),
      mat = (\<lambda>obj. \<lparr>m_albedo = vec_splat (Fin (1 / 2)), m_emission = vec_splat (Fin 0),
                      m_use_fresnel = True, m_r0 = Fin 1\<rparr>),
      copy_scene = (\<lambda>s. s)\<rparr>"

definition mirror_start :: "unit path" where
  "mirror_start =
     \<lparr>ray = Ray (Vec3 (Fin 0) (Fin 0) (Fin 0)) (Vec3 (Fin 0) (Fin 0) (Fin 1)),
      contribution = vec_splat (Fin 0), throughput = vec_splat (Fin 1),
      normal_out = vec_splat (Fin 0), albedo_out = vec_splat (Fin 0),
      bounce = 0, dim = 0, scene = (), events = []\<rparr>"

text \<open>The state in which the loop leaves that path: six intersection tests, and a roulette
  after the third, fourth and fifth bounce.\<close>

definition mirror_final :: "unit path" where
  "mirror_final =
     \<lparr>ray = Ray (Vec3 (Fin 0) (Fin 0) (Fin 1)) (Vec3 (Fin 0) (Fin 0) (Fin (- 1))),
      contribution = Vec3 (Fin 0) (Fin 0) (Fin 0),
      throughput = Vec3 (Fin (361 / 400)) (Fin (361 / 400)) (Fin (361 / 400)),
      normal_out = Vec3 (Fin (1 / 2)) (Fin 1) (Fin (1 / 2)),
      albedo_out = Vec3 (Fin (1 / 2)) (Fin (1 / 2)) (Fin (1 / 2)),
      bounce = 6, dim = 3, scene = (),
      events =
        [Intersect (Ray (Vec3 (Fin 0) (Fin 0) (Fin 0)) (Vec3 (Fin 0) (Fin 0) (Fin 1))),
         Intersect (Ray (Vec3 (Fin 0) (Fin 0) (Fin 1)) (Vec3 (Fin 0) (Fin 0) (Fin (- 1)))),
         Intersect (Ray (Vec3 (Fin 0) (Fin 0) (Fin 0)) (Vec3 (Fin 0) (Fin 0) (Fin 1))),
         RouletteDivide (Fin (19 / 20)),
         Intersect (Ray (Vec3 (Fin 0) (Fin 0) (Fin 1)) (Vec3 (Fin 0) (Fin 0) (Fin (- 1)))),
         RouletteDivide (Fin (19 / 20)),
         Intersect (Ray (Vec3 (Fin 0) (Fin 0) (Fin 0)) (Vec3 (Fin 0) (Fin 0) (Fin 1))),
         RouletteDivide (Fin (19 / 20)),
         Intersect (Ray (Vec3 (Fin 0) (Fin 0) (Fin 1)) (Vec3 (Fin 0) (Fin 0) (Fin (- 1))))]\<rparr>"

text \<open>A scene without geometry: every ray misses.\<close>

definition empty_scene :: "(unit, unit) Scene" where
  "empty_scene =
     \<lparr>nearestIntersection = (\<lambda>s r. ((None, PInf), s)),
      getNormal = (\<lambda>s obj p. (Vec3 (Fin 0) (Fin 0) (Fin 1), s)),
      mat = (\<lambda>obj. \<lparr>m_albedo = vec_splat (Fin 0), m_emission = vec_splat (Fin 0),
                      m_use_fresnel = False, m_r0 = Fin 0\<rparr>),
      copy_scene = (\<lambda>s. s)\<rparr>"

text \<open>Direct lighting in the words of the spec: on a diffuse bounce with the light in front
  of the surface, the light adds the effective albedo times \<open>max(0, n . lightVec)\<close> divided
  by \<open>distance^3\<close> and scaled by 720, weighted by the throughput, if and only if the shadow
  ray reports no hit or a hit at a distance greater than or equal to the distance to the
  light; otherwise nothing is added (and on a specular bounce, or with the light behind the
  surface, no shadow ray is cast).\<close>

definition direct_light_spec ::
  "('s, 'o) Scene \<Rightarrow> 's \<Rightarrow> bool \<Rightarrow> vec3 \<Rightarrow> vec3 \<Rightarrow> vec3 \<Rightarrow> vec3 \<Rightarrow> vec3 \<Rightarrow> event list \<Rightarrow>
   vec3 \<times> 's \<times> event list" where
  "direct_light_spec S sc sample_specular hit_p hit_normal eff_albedo thr contrib evs =
     (let light_vec = Vec3 (Fin 8) (Fin 12) (Fin (- 6)) - hit_p;
          distance = fp_sqrt (dot light_vec light_vec);
          lighting =
            vec_scale
              (vec_div (vec_scale eff_albedo (std_max (Fin 0) (dot hit_normal light_vec)))
                 (distance * distance * distance))
              (Fin 720);
          shadow_ray = Ray hit_p (vec_scale light_vec (Fin 1 / distance));
          ((shadow_hit, shadow_t), sc1) = nearestIntersection S sc shadow_ray
      in if \<not> sample_specular \<and> dot hit_normal light_vec > Fin 0
         then (if shadow_hit = None \<or> shadow_t \<ge> distance then contrib + thr * lighting
               else contrib,
               sc1, evs @ [ShadowRay shadow_ray])
         else (contrib, sc, evs))"

text \<open>The point where the ray of a path state hits at distance \<open>t\<close> (the local \<^verbatim>\<open>hit_p\<close>).\<close>

definition hit_point :: "'s path \<Rightarrow> fp \<Rightarrow> vec3" where
  "hit_point st t = ray_o (ray st) + vec_scale (ray_d (ray st)) t"

text \<open>The invariant of the accumulation buffer: the three arrays have \<open>xres * yres\<close>
  entries.\<close>

definition buffer_ok :: "RenderOutput \<Rightarrow> bool" where
  "buffer_ok out =
     (length (beauty out) = nat (xres out * yres out) \<and>
      length (normal out) = nat (xres out * yres out) \<and>
      length (albedo out) = nat (xres out * yres out))"

text \<open>The path that \<^verbatim>\<open>render\<close> traces for a pixel: the body of \<^verbatim>\<open>render\<close> from its first
  line up to the end of its loop, before the three additions into the buffer. Of the buffer
  it takes the resolution only (the locals \<^verbatim>\<open>xres\<close> and \<^verbatim>\<open>yres\<close>).\<close>

definition path_of_pixel ::
  "('s, 'o) Scene \<Rightarrow> bool \<Rightarrow> int \<Rightarrow> int \<Rightarrow> int \<Rightarrow> int \<Rightarrow> int \<Rightarrow> int \<Rightarrow> int \<Rightarrow> 's \<Rightarrow>
   's path option" where
  "path_of_pixel S USE_DOUBLE x y frame pass frames xres' yres' sc =
     (let pixel_idx = int_add (int_mul y xres') x;
          hash_random =
            uintToUnitReal USE_DOUBLE
              (hash (word_of_int (int_add (int_mul (int_mul frame xres') yres') pixel_idx)))
      in do {
        (r, dim3) \<leftarrow> camera_ray x y frame pass frames xres' yres' hash_random;
        path_loop S pass hash_random
          \<lparr>ray = r, contribution = vec_splat (Fin 0), throughput = vec_splat (Fin 1),
           normal_out = vec_splat (Fin 0), albedo_out = vec_splat (Fin 0), bounce = 0,
           dim = dim3, scene = sc, events = []\<rparr>
      })"

text \<open>A scene for the witnesses: a ray from the origin hits a diffuse surface at distance
  1, every other ray (the shadow ray) misses, so the surface is lit.\<close>

definition lit_scene :: "(unit, unit) Scene" where
  "lit_scene =
     \<lparr>nearestIntersection =
        (\<lambda>s r. if ray_o r = Vec3 (Fin 0) (Fin 0) (Fin 0) then ((Some (), Fin 1), s)
               else ((None, PInf), s)),
      getNormal = (\<lambda>s obj p. (Vec3 (Fin 0) (Fin 0) (Fin (- 1)), s)),
      mat = (\<lambda>obj. \<lparr>m_albedo = vec_splat (Fin (1 / 2)), m_emission = vec_splat (Fin 0),
                      m_use_fresnel = False, m_r0 = Fin 0\<rparr>),
      copy_scene = (\<lambda>s. s)\<rparr>"

text \<open>Two 2 x 2 buffers for the witnesses: they agree at the pixel \<open>(1, 1)\<close> and differ in
  the other pixels and in the pass counter.\<close>

definition small_output :: RenderOutput where
  "small_output =
     \<lparr>xres = 2, yres = 2, passes = 3,
      beauty = [vec_splat (Fin 1), vec_splat (Fin 1), vec_splat (Fin 1), vec_splat (Fin 1)],
      normal = [vec_splat (Fin 0), vec_splat (Fin 0), vec_splat (Fin 0), vec_splat (Fin 0)],
      albedo = [vec_splat (Fin 0), vec_splat (Fin 0), vec_splat (Fin 0), vec_splat (Fin 0)]\<rparr>"

definition other_output :: RenderOutput where
  "other_output =
     \<lparr>xres = 2, yres = 2, passes = 8,
      beauty = [vec_splat (Fin 5), vec_splat (Fin 6), vec_splat (Fin 7), vec_splat (Fin 1)],
      normal = [vec_splat (Fin 5), vec_splat (Fin 6), vec_splat (Fin 7), vec_splat (Fin 0)],
      albedo = [vec_splat (Fin 5), vec_splat (Fin 6), vec_splat (Fin 7), vec_splat (Fin 0)]\<rparr>"

section \<open>Properties of the sampler\<close>

lemmas fp_ops = plus_fp_def uminus_fp_def minus_fp_def times_fp_def divide_fp_def
  less_fp_def less_eq_fp_def

lemma RadicalInverse_loop_done:
  "RadicalInverse_loop base invBase 0 reversedDigits invBaseN = Some (reversedDigits, invBaseN)"
  by (subst RadicalInverse_loop.simps) simp

lemma RadicalInverse_loop_step:
  "a \<noteq> 0 \<Longrightarrow> int_div a base = Some n \<Longrightarrow>
   RadicalInverse_loop base invBase a reversedDigits invBaseN =
   RadicalInverse_loop base invBase n
     (int_add (int_mul reversedDigits base) (int_sub a (int_mul base n))) (invBaseN * invBase)"
  by (subst RadicalInverse_loop.simps) simp

lemma rev_digits_mono: "0 \<le> acc \<Longrightarrow> acc \<le> rev_digits b a acc"
proof (induction b a acc rule: rev_digits.induct)
  case (1 b a acc)
  show ?case
  proof (cases "a \<le> 0 \<or> b < 2")
    case True
    then show ?thesis by (simp add: rev_digits.simps[of b a acc])
  next
    case False
    then have b: "2 \<le> b" and a: "0 < a" by auto
    have m: "0 \<le> a mod b" using b by simp
    have "acc * 1 \<le> acc * b" using b "1.prems" by (intro mult_left_mono) auto
    then have le: "acc \<le> acc * b + a mod b" using m by simp
    then have "0 \<le> acc * b + a mod b" using "1.prems" by simp
    from "1.IH"[OF False this] le False show ?thesis
      by (simp add: rev_digits.simps[of b a acc])
  qed
qed

lemma int_div_pos: "0 < a \<Longrightarrow> 2 \<le> b \<Longrightarrow> int_div a b = Some (a div b)"
  by (simp add: int_div_def INT_MIN_def)

text \<open>While the reversed digits fit into an \<^verbatim>\<open>int\<close>, no operation of the loop wraps and
  the loop returns the digit reversal together with a positive power of \<^verbatim>\<open>invBase\<close>.\<close>

lemma RadicalInverse_loop_rev:
  "2 \<le> b \<Longrightarrow> 0 \<le> a \<Longrightarrow> a \<le> INT_MAX \<Longrightarrow> 0 \<le> rd \<Longrightarrow>
   rev_digits b a rd \<le> INT_MAX \<Longrightarrow> 0 < c \<Longrightarrow> 0 < ib \<Longrightarrow>
   \<exists>c'. 0 < c' \<and> RadicalInverse_loop b (Fin ib) a rd (Fin c) = Some (rev_digits b a rd, Fin c')"
proof (induction b a rd arbitrary: c rule: rev_digits.induct)
  case (1 b a rd)
  show ?case
  proof (cases "a = 0")
    case True
    then show ?thesis using "1.prems"
      by (auto simp: RadicalInverse_loop_done rev_digits.simps[of b 0 rd])
  next
    case False
    with "1.prems" have a: "0 < a" by simp
    have b: "2 \<le> b" by fact
    let ?n = "a div b"
    let ?rd = "rd * b + a mod b"
    have nb: "\<not> (a \<le> 0 \<or> b < 2)" using a b by simp
    have unf: "rev_digits b a rd = rev_digits b ?n ?rd"
      using nb by (simp add: rev_digits.simps[of b a rd])
    have m0: "0 \<le> a mod b" and m1: "a mod b < b" using b by simp_all
    have rdb: "0 \<le> rd * b" using "1.prems"(4) b by simp
    then have rd0: "0 \<le> ?rd" using m0 by simp
    have "?rd \<le> rev_digits b ?n ?rd" by (rule rev_digits_mono[OF rd0])
    then have rdM: "?rd \<le> INT_MAX" using "1.prems"(5) unf by simp
    have n0: "0 \<le> ?n" using a b by (simp add: pos_imp_zdiv_nonneg_iff)
    have eq: "b * ?n + a mod b = a" by simp
    have bn: "b * ?n \<le> a" using eq m0 by linarith
    have "1 * ?n \<le> b * ?n" using n0 b by (intro mult_right_mono) auto
    then have nle: "?n \<le> a" using bn by simp
    have bn0: "0 \<le> b * ?n" using n0 b by simp
    have w1: "int_mul b ?n = b * ?n"
      using bn bn0 "1.prems"(3) by (simp add: int_mul_def wrap32_id INT_MAX_def)
    have dig: "a - b * ?n = a mod b" using eq by linarith
    have w2: "int_sub a (int_mul b ?n) = a mod b"
      using w1 dig m0 m1 "1.prems"(3) bn0 by (simp add: int_sub_def wrap32_id INT_MAX_def)
    have w3: "int_mul rd b = rd * b"
      using rdb rdM m0 by (simp add: int_mul_def wrap32_id INT_MAX_def)
    have w4: "int_add (int_mul rd b) (a mod b) = ?rd"
      using w3 rd0 rdM by (simp add: int_add_def wrap32_id INT_MAX_def)
    have step: "RadicalInverse_loop b (Fin ib) a rd (Fin c) =
                RadicalInverse_loop b (Fin ib) ?n ?rd (Fin (c * ib))"
      using RadicalInverse_loop_step[OF False int_div_pos[OF a b], of "Fin ib" rd "Fin c"]
      by (simp add: w2 w4 fp_ops)
    have cpos: "0 < c * ib" using "1.prems" by simp
    have "?n \<le> INT_MAX" using nle "1.prems"(3) by simp
    from "1.IH"[OF nb b n0 this rd0 _ cpos "1.prems"(7)] "1.prems"(5) unf
    obtain c' where "0 < c'"
      "RadicalInverse_loop b (Fin ib) ?n ?rd (Fin (c * ib)) = Some (rev_digits b ?n ?rd, Fin c')"
      by auto
    then show ?thesis using step unf by auto
  qed
qed

lemma RadicalInverse_zero: "RadicalInverse 0 b = Some (Fin 0)"
  by (simp add: RadicalInverse_def RadicalInverse_loop_done fp_ops std_min_def
      DoubleOneMinusEpsilon_def)

lemma RadicalInverse_range:
  assumes "0 \<le> a" "a \<le> INT_MAX" "2 \<le> b" "rev_digits b a 0 \<le> INT_MAX"
  shows "\<exists>v. RadicalInverse a b = Some (Fin v) \<and> 0 \<le> v \<and> v < 1"
proof -
  have ib: "(0::real) < 1 / of_int b" using assms(3) by simp
  from RadicalInverse_loop_rev[OF assms(3) assms(1) assms(2) _ assms(4) _ ib, of 1]
  obtain c' where c': "0 < c'"
    and l: "RadicalInverse_loop b (Fin (1 / of_int b)) a 0 (Fin 1) = Some (rev_digits b a 0, Fin c')"
    by auto
  have r0: "0 \<le> rev_digits b a 0" using rev_digits_mono[of 0 b a] by simp
  then have p: "0 \<le> real_of_int (rev_digits b a 0) * c'" using c' by simp
  have inv: "Fin 1 / Fin (of_int b) = Fin (1 / of_int b)" using assms(3) by (simp add: fp_ops)
  let ?x = "real_of_int (rev_digits b a 0) * c'"
  have res: "RadicalInverse a b = Some (std_min (Fin ?x) DoubleOneMinusEpsilon)"
    using l inv by (simp add: RadicalInverse_def times_fp_def)
  show ?thesis
  proof (cases "1 - 1 / 2 ^ 53 < ?x")
    case True
    then have "std_min (Fin ?x) DoubleOneMinusEpsilon = Fin (1 - 1 / 2 ^ 53)"
      by (simp add: std_min_def DoubleOneMinusEpsilon_def less_fp_def)
    then show ?thesis using res by (intro exI[of _ "1 - 1 / 2 ^ 53"]) simp
  next
    case False
    then have "std_min (Fin ?x) DoubleOneMinusEpsilon = Fin ?x"
      by (simp add: std_min_def DoubleOneMinusEpsilon_def less_fp_def)
    moreover have "?x < 1" using False by simp
    ultimately show ?thesis using res p by (intro exI[of _ ?x]) simp
  qed
qed

lemmas RadicalInverse_eval = RadicalInverse_def RadicalInverse_loop_step
  RadicalInverse_loop_done int_div_def int_add_def int_sub_def int_mul_def wrap32_def
  INT_MIN_def fp_ops std_min_def DoubleOneMinusEpsilon_def

text \<open>
  Claim C4, as stated: for every index \<open>a \<ge> 0\<close> and every base \<open>b \<ge> 2\<close>,
  \<^verbatim>\<open>RadicalInverse(a, b)\<close> is in \<open>[0, 1)\<close>. It fails where the reversed digits do not fit
  into the \<^verbatim>\<open>int\<close> accumulator: for \<open>a = 1162261469 = 3^19 + 2\<close> in base 3 the reversed
  digits are \<open>2 * 3^19 + 1 > INT_MAX\<close>, the accumulator wraps to a negative number, and so
  does the result.
\<close>

theorem RadicalInverse_overflow_counterexample:
  "\<not> (\<exists>v. RadicalInverse 1162261469 3 = Some (Fin v) \<and> 0 \<le> v \<and> v < 1)"
proof -
  have "RadicalInverse 1162261469 3 = Some (Fin (- 1970444361 / 3486784401))"
    by (simp add: RadicalInverse_eval)
  then show ?thesis by simp
qed

text \<open>
  Claim C4, amended: for every index \<open>0 \<le> a \<le> INT_MAX\<close> and every base \<open>b \<ge> 2\<close> such that
  the base-\<open>b\<close> digit reversal of \<open>a\<close> fits into an \<^verbatim>\<open>int\<close>, \<^verbatim>\<open>RadicalInverse(a, b)\<close>
  returns a value \<open>v\<close> with \<open>0 \<le> v < 1\<close>; and for \<open>a = 0\<close> it returns 0, whatever the base.
\<close>

theorem RadicalInverse_in_unit_interval:
  "(0 \<le> a \<and> a \<le> INT_MAX \<and> 2 \<le> b \<and> rev_digits b a 0 \<le> INT_MAX \<longrightarrow>
      (\<exists>v. RadicalInverse a b = Some (Fin v) \<and> 0 \<le> v \<and> v < 1)) \<and>
   RadicalInverse 0 b = Some (Fin 0)"
  using RadicalInverse_range[of a b] RadicalInverse_zero[of b] by blast

theorem RadicalInverse_in_unit_interval_witness:
  "(0::int) \<le> 5 \<and> 5 \<le> INT_MAX \<and> (2::int) \<le> 3 \<and> rev_digits 3 5 0 \<le> INT_MAX \<and>
   (\<exists>v. RadicalInverse 5 3 = Some (Fin v) \<and> 0 \<le> v \<and> v < 1) \<and>
   RadicalInverse 0 3 = Some (Fin 0)"
proof -
  have r: "rev_digits 3 5 0 = 7"
    by (simp add: rev_digits.simps[of 3 5 0] rev_digits.simps[of 3 1 2]
        rev_digits.simps[of 3 0 7])
  have h: "(0::int) \<le> 5 \<and> 5 \<le> INT_MAX \<and> (2::int) \<le> 3 \<and> rev_digits 3 5 0 \<le> INT_MAX"
    by (simp add: r INT_MAX_def)
  show ?thesis using h RadicalInverse_in_unit_interval[of 5 3] by blast
qed

lemma triDist_upper:
  assumes "1 / 2 < u" "u \<le> 1"
  shows "triDist (Fin u) = Fin (sqrt (2 * u - 1) - 1)"
proof -
  have s: "0 < 2 * u - 1" using assms by simp
  have d: "(u * 2 - 1) / sqrt (u * 2 - 1) = sqrt (u * 2 - 1)"
    using s by (simp add: real_div_sqrt mult.commute)
  have p: "0 < sqrt (u * 2 - 1)" using s by (simp add: mult.commute)
  then have q: "- 1 < sqrt (u * 2 - 1)" by linarith
  show ?thesis using s p q
    by (simp add: triDist_def fp_ops std_max_def sign_def Let_def d mult.commute)
qed

lemma triDist_lower:
  assumes "0 \<le> u" "u < 1 / 2"
  shows "triDist (Fin u) = Fin (1 - sqrt (1 - 2 * u))"
proof -
  have s: "0 < 1 - 2 * u" "1 - 2 * u \<le> 1" using assms by simp_all
  have a: "\<bar>u * 2 - 1\<bar> = 1 - 2 * u" using s by simp
  have "(1 - 2 * u) / sqrt (1 - 2 * u) = sqrt (1 - 2 * u)"
    using s by (simp add: real_div_sqrt)
  then have d: "(u * 2 - 1) / sqrt (1 - 2 * u) = - sqrt (1 - 2 * u)"
    by (metis minus_diff_eq minus_divide_left mult.commute)
  have p: "0 < sqrt (1 - 2 * u)" "sqrt (1 - 2 * u) \<le> 1" using s by simp_all
  show ?thesis using s p
    by (simp add: triDist_def fp_ops std_max_def sign_def Let_def a d)
qed

lemma triDist_off_half:
  assumes "0 \<le> u" "u < 1" "u \<noteq> 1 / 2"
  shows "Fin (- 1) \<le> triDist (Fin u) \<and> triDist (Fin u) \<le> Fin 1 \<and>
         triDist (Fin (1 - u)) = - triDist (Fin u)"
proof (cases "u < 1 / 2")
  case True
  define r where "r = sqrt (1 - 2 * u)"
  have p: "0 \<le> r" "r \<le> 1" using assms True by (simp_all add: r_def)
  have "1 / 2 < 1 - u" "1 - u \<le> 1" using assms True by simp_all
  from triDist_upper[OF this] have m: "triDist (Fin (1 - u)) = Fin (r - 1)"
    by (simp add: algebra_simps r_def)
  have t: "triDist (Fin u) = Fin (1 - r)"
    by (simp add: triDist_lower[OF assms(1) True] r_def)
  show ?thesis using p unfolding m t by (simp add: fp_ops)
next
  case False
  then have h: "1 / 2 < u" using assms by simp
  define r where "r = sqrt (2 * u - 1)"
  have p: "0 \<le> r" "r \<le> 1" using assms h by (simp_all add: r_def)
  have "0 \<le> 1 - u" "1 - u < 1 / 2" using assms h by simp_all
  from triDist_lower[OF this] have m: "triDist (Fin (1 - u)) = Fin (1 - r)"
    by (simp add: algebra_simps r_def)
  have t: "triDist (Fin u) = Fin (r - 1)"
    using assms by (simp add: triDist_upper[OF h] r_def)
  show ?thesis using p unfolding m t by (simp add: fp_ops)
qed

text \<open>
  Claim C5: for the degenerate input \<open>u = 0.5\<close>, \<^verbatim>\<open>triDist\<close> is claimed to return exactly
  \<open>-1\<close>. In the code, \<^verbatim>\<open>orig\<close> is 0, \<^verbatim>\<open>0 / sqrt(0)\<close> is a NaN, \<^verbatim>\<open>std::max\<close> turns it
  into \<open>-1\<close>, and then \<^verbatim>\<open>sign(0) = 1\<close> is subtracted: the function returns \<open>-2\<close>.
\<close>

theorem triDist_half: "triDist (Fin (1 / 2)) = Fin (- 2)"
  by (simp add: triDist_def fp_ops std_max_def sign_def)

text \<open>
  Claim C6: for every \<open>u\<close> in \<open>[0, 1)\<close> the output of \<^verbatim>\<open>triDist\<close> is claimed to lie in
  \<open>[-1, 1]\<close>. At \<open>u = 0.5\<close> the output \<open>-2\<close> is outside that interval.
\<close>

theorem triDist_half_out_of_range:
  "\<not> (Fin (- 1) \<le> triDist (Fin (1 / 2)) \<and> triDist (Fin (1 / 2)) \<le> Fin 1)"
  by (simp add: triDist_def fp_ops std_max_def sign_def)

section \<open>Properties of the bucket scheduler\<close>

lemma int_div_nonneg: "0 \<le> a \<Longrightarrow> 0 < b \<Longrightarrow> int_div a b = Some (a div b)"
  by (cases "a = 0") (simp_all add: int_div_def INT_MIN_def)

lemma in32: "INT_MIN \<le> v \<Longrightarrow> v \<le> INT_MAX \<Longrightarrow> wrap32 v = v"
  by (simp add: wrap32_id INT_MIN_def INT_MAX_def)

lemma bucket_step:
  assumes xr: "1 \<le> xr" "xr + 32 \<le> INT_MAX" and yr: "1 \<le> yr" "yr + 32 \<le> INT_MAX"
    and xb: "xb = (xr + 31) div 32" and yb: "yb = (yr + 31) div 32" and nb: "nb = xb * yb"
    and P: "1 \<le> P"
    and tot: "nb * P \<le> INT_MAX" and b: "0 \<le> b" "b < nb * P"
    and bp: "INT_MIN \<le> bp" "bp + P - 1 \<le> INT_MAX"
  shows "bucket_loop rend xr yr xb nb bp \<lparr>num_passes = P, next_bucket = b\<rparr> s =
         do {
           s' \<leftarrow> for_loop ((b mod nb) div xb * 32) (min ((b mod nb) div xb * 32 + 32) yr)
                  (\<lambda>y. for_loop ((b mod nb) mod xb * 32) (min ((b mod nb) mod xb * 32 + 32) xr)
                     (\<lambda>x. rend x y (bp + b div nb))) s;
           bucket_loop rend xr yr xb nb bp \<lparr>num_passes = P, next_bucket = b + 1\<rparr> s'
         }"
proof -
  have M: "INT_MAX = 2147483647" "INT_MIN = - 2147483648"
    by (simp_all add: INT_MAX_def INT_MIN_def)
  have xb0: "0 < xb" using xr xb by simp
  have yb0: "0 < yb" using yr yb by simp
  have nb0: "0 < nb" using xb0 yb0 nb by simp
  have tp: "0 \<le> nb * P" using nb0 P by simp
  have t: "int_mul nb P = nb * P"
    using tot tp by (simp add: int_mul_def in32 M)
  have b1: "int_add b 1 = b + 1" using b tot by (simp add: int_add_def in32 M)
  let ?sp = "b div nb"
  let ?p = "b mod nb"
  let ?y = "?p div xb"
  let ?x = "?p mod xb"
  have sp0: "0 \<le> ?sp" using b nb0 by (simp add: pos_imp_zdiv_nonneg_iff)
  have d1: "int_div b nb = Some ?sp" using b nb0 by (simp add: int_div_nonneg)
  have e1: "nb * ?sp + ?p = b" by simp
  have m1: "0 \<le> ?p" "?p < nb" using nb0 by simp_all
  have nsp0: "0 \<le> nb * ?sp" using sp0 nb0 by simp
  have nsp: "nb * ?sp \<le> b" using e1 m1 by linarith
  have bM: "b \<le> 2147483647" using b tot M by linarith
  have w1: "int_mul nb ?sp = nb * ?sp"
    unfolding int_mul_def using nsp nsp0 bM by (intro wrap32_id) linarith+
  have pb: "b - nb * ?sp = ?p" using e1 by linarith
  have pM: "?p \<le> 2147483647" using pb nsp0 bM by linarith
  have w2: "int_sub b (nb * ?sp) = ?p"
    unfolding int_sub_def pb using m1 pM by (intro wrap32_id) linarith+
  have y0: "0 \<le> ?y" using m1 xb0 by (simp add: pos_imp_zdiv_nonneg_iff)
  have d2: "int_div ?p xb = Some ?y" using m1 xb0 by (simp add: int_div_nonneg)
  have e2: "xb * ?y + ?x = ?p" by simp
  have m2: "0 \<le> ?x" "?x < xb" using xb0 by simp_all
  have xy0: "0 \<le> xb * ?y" using y0 xb0 by simp
  have xy: "xb * ?y \<le> ?p" using e2 m2 by linarith
  have w3: "int_mul xb ?y = xb * ?y"
    unfolding int_mul_def using xy xy0 pM by (intro wrap32_id) linarith+
  have px: "?p - xb * ?y = ?x" using e2 by linarith
  have xM: "?x \<le> 2147483647" using px xy0 pM by linarith
  have w4: "int_sub ?p (xb * ?y) = ?x"
    unfolding int_sub_def px using m2 xM by (intro wrap32_id) linarith+
  have xbe: "xb * 32 \<le> xr + 31" using xb by simp
  have ybe: "yb * 32 \<le> yr + 31" using yb by simp
  have "xb * ?y < xb * yb" using xy m1 nb by linarith
  then have "?y < yb" using xb0 by (simp add: mult_less_cancel_left_pos)
  then have yle: "?y * 32 + 32 \<le> yr + 31" using ybe by linarith
  have xle: "?x * 32 + 32 \<le> xr + 31" using m2 xbe by linarith
  have xrM: "xr + 32 \<le> 2147483647" "yr + 32 \<le> 2147483647" using xr yr M by simp_all
  have w5: "int_mul ?x 32 = ?x * 32"
    unfolding int_mul_def using m2 xle xrM by (intro wrap32_id) linarith+
  have w6: "int_add (?x * 32) 32 = ?x * 32 + 32"
    unfolding int_add_def using m2 xle xrM by (intro wrap32_id) linarith+
  have w7: "int_mul ?y 32 = ?y * 32"
    unfolding int_mul_def using y0 yle xrM by (intro wrap32_id) linarith+
  have w8: "int_add (?y * 32) 32 = ?y * 32 + 32"
    unfolding int_add_def using y0 yle xrM by (intro wrap32_id) linarith+
  have "nb * ?sp < nb * P" using nsp b by linarith
  then have "?sp < P" using nb0 by (simp add: mult_less_cancel_left_pos)
  then have w9: "int_add bp ?sp = bp + ?sp"
    unfolding int_add_def using sp0 bp M by (intro wrap32_id) linarith+
  have nge: "\<not> nb * P \<le> b" using b by simp
  show ?thesis
    by (subst bucket_loop.simps)
      (simp add: Let_def t b1 d1 w1 w2 d2 w3 w4 w5 w6 w7 w8 w9 nge)
qed


lemma bucket_done:
  "int_mul nb P \<le> b \<Longrightarrow>
   bucket_loop rend xr yr xb nb bp \<lparr>num_passes = P, next_bucket = b\<rparr> s =
   Some (\<lparr>num_passes = P, next_bucket = int_add b 1\<rparr>, s)"
  by (subst bucket_loop.simps) (simp add: Let_def)

lemma run_calls_single: "run_calls rend [(x, y, p)] s = rend x y p s"
proof -
  have "run_calls rend [] = Some" by (rule ext) simp
  then show ?thesis by simp
qed

lemma run_calls_append:
  "run_calls rend (as @ bs) s = do { s' \<leftarrow> run_calls rend as s; run_calls rend bs s' }"
  by (induction as arbitrary: s) (auto split: Option.bind_split)

lemma for_loop_run:
  assumes "\<And>i s. body i s = run_calls rend (g i) s"
  shows "for_loop lo hi body s = run_calls rend (concat (map g [lo..hi - 1])) s"
proof (induction "nat (hi - lo)" arbitrary: lo s)
  case 0
  then have "\<not> lo < hi" by simp
  then show ?case by (simp add: for_loop.simps[of lo hi body s])
next
  case (Suc n)
  then have lt: "lo < hi" by linarith
  have n: "n = nat (hi - (lo + 1))" using Suc.hyps(2) by linarith
  have up: "[lo..hi - 1] = lo # [lo + 1..hi - 1]" using lt by (simp add: upto_rec1)
  have ih: "for_loop (lo + 1) hi body = run_calls rend (concat (map g [lo + 1..hi - 1]))"
    by (rule ext) (rule Suc.hyps(1)[OF n])
  show ?case using lt
    by (simp add: for_loop.simps[of lo hi body s] assms up run_calls_append ih)
qed

lemma rows_run:
  "for_loop y0 y1 (\<lambda>y. for_loop x0 x1 (\<lambda>x. rend x y p)) s =
   run_calls rend (concat (map (\<lambda>y. map (\<lambda>x. (x, y, p)) [x0..x1 - 1]) [y0..y1 - 1])) s"
proof -
  have inner: "for_loop x0 x1 (\<lambda>x. rend x y p) t = run_calls rend (map (\<lambda>x. (x, y, p)) [x0..x1 - 1]) t"
    for y t
  proof -
    have "for_loop x0 x1 (\<lambda>x. rend x y p) t =
          run_calls rend (concat (map (\<lambda>x. [(x, y, p)]) [x0..x1 - 1])) t"
      by (rule for_loop_run) (simp only: run_calls_single)
    moreover have "concat (map (\<lambda>x. [f x]) xs) = map f xs" for f :: "int \<Rightarrow> int \<times> int \<times> int" and xs
      by (induction xs) simp_all
    ultimately show ?thesis by simp
  qed
  show ?thesis by (rule for_loop_run) (rule inner)
qed

lemma bucket_loop_run:
  assumes xr: "1 \<le> xr" "xr + 32 \<le> INT_MAX" and yr: "1 \<le> yr" "yr + 32 \<le> INT_MAX"
    and xb: "xb = (xr + 31) div 32" and yb: "yb = (yr + 31) div 32" and nb: "nb = xb * yb"
    and P: "1 \<le> P"
    and tot: "nb * P \<le> INT_MAX"
    and bp: "INT_MIN \<le> bp" "bp + P - 1 \<le> INT_MAX"
  shows "0 \<le> b \<Longrightarrow> b \<le> nb * P \<Longrightarrow>
         bucket_loop rend xr yr xb nb bp \<lparr>num_passes = P, next_bucket = b\<rparr> s =
         map_option (Pair \<lparr>num_passes = P, next_bucket = int_add (nb * P) 1\<rparr>)
           (run_calls rend (concat (map (bucket_rows xr yr xb nb bp) [b..nb * P - 1])) s)"
proof (induction "nat (nb * P - b)" arbitrary: b s)
  case 0
  then have e: "b = nb * P" by simp
  have "0 \<le> nb * P" using 0 e by simp
  then have "int_mul nb P = nb * P" using tot
    by (simp add: int_mul_def in32 INT_MAX_def INT_MIN_def)
  then show ?case using e by (simp add: bucket_done)
next
  case (Suc n)
  then have lt: "b < nb * P" by linarith
  have n: "n = nat (nb * P - (b + 1))" using Suc.hyps(2) by linarith
  have up: "[b..nb * P - 1] = b # [b + 1..nb * P - 1]" using lt by (simp add: upto_rec1)
  have "bucket_loop rend xr yr xb nb bp \<lparr>num_passes = P, next_bucket = b + 1\<rparr> t =
         map_option (Pair \<lparr>num_passes = P, next_bucket = int_add (nb * P) 1\<rparr>)
           (run_calls rend (concat (map (bucket_rows xr yr xb nb bp) [b + 1..nb * P - 1])) t)" for t
    using Suc.hyps(1)[OF n, of t] Suc.prems lt by simp
  then have ih: "bucket_loop rend xr yr xb nb bp \<lparr>num_passes = P, next_bucket = b + 1\<rparr> =
         (\<lambda>t. map_option (Pair \<lparr>num_passes = P, next_bucket = int_add (nb * P) 1\<rparr>)
           (run_calls rend (concat (map (bucket_rows xr yr xb nb bp) [b + 1..nb * P - 1])) t))"
    by (intro ext)
  show ?case
    by (simp add: bucket_step[OF xr yr xb yb nb P tot Suc.prems(1) lt bp] rows_run up ih
        run_calls_append bucket_rows_def[symmetric] map_option_bind
        split: Option.bind_split)
qed

lemma concat_distinct_by_key:
  "distinct ks \<Longrightarrow> (\<And>k. k \<in> set ks \<Longrightarrow> distinct (f k)) \<Longrightarrow>
   (\<And>k e. k \<in> set ks \<Longrightarrow> e \<in> set (f k) \<Longrightarrow> key e = k) \<Longrightarrow>
   distinct (concat (map f ks))"
proof (induction ks)
  case Nil
  then show ?case by simp
next
  case (Cons k ks)
  have "set (f k) \<inter> (\<Union>j\<in>set ks. set (f j)) = {}"
  proof (rule ccontr)
    assume "\<not> ?thesis"
    then obtain e j where e: "e \<in> set (f k)" and j: "j \<in> set ks" "e \<in> set (f j)" by auto
    have "key e = k" using Cons.prems(3)[of k e] e by simp
    moreover have "key e = j" using Cons.prems(3)[of j e] j by simp
    ultimately show False using Cons.prems(1) j by simp
  qed
  moreover have "distinct (concat (map f ks))"
    using Cons.prems by (intro Cons.IH) auto
  ultimately show ?case using Cons.prems(2)[of k] by simp
qed

lemma distinct_rows:
  "distinct (concat (map (\<lambda>y. map (\<lambda>x. (x, y, p)) [x0..x1]) [y0..(y1::int)]))"
  by (rule concat_distinct_by_key[where key = "\<lambda>c. fst (snd c)"])
     (auto simp: distinct_map inj_on_def)


lemma in_rows:
  "(x, y, p) \<in> set (concat (map (\<lambda>y. map (\<lambda>x. (x, y, p)) [x0..x1]) [y0..y1])) \<longleftrightarrow>
   x0 \<le> x \<and> x \<le> x1 \<and> y0 \<le> y \<and> y \<le> y1"
  by (auto simp: image_iff Bex_def)

lemma div32_lt: "(x::int) < xr \<Longrightarrow> x div 32 < (xr + 31) div 32"
  by linarith

lemma div32_lo: "x div 32 * 32 \<le> (x::int)"
  by linarith

lemma div32_hi: "(x::int) < x div 32 * 32 + 32"
  by linarith

lemma div32_eq: "b * 32 \<le> (x::int) \<Longrightarrow> x < b * 32 + 32 \<Longrightarrow> x div 32 = b"
  by linarith

lemma rows_key:
  assumes xr: "1 \<le> xr" and yr: "1 \<le> yr"
    and xb: "xb = (xr + 31) div 32" and yb: "yb = (yr + 31) div 32" and nb: "nb = xb * yb"
    and k: "0 \<le> k" "k < nb * P"
    and e: "e \<in> set (bucket_rows xr yr xb nb bp k)"
  shows "call_key xb nb bp e = k \<and> e \<in> all_calls xr yr bp P"
proof -
  let ?p = "k mod nb"
  let ?bx = "?p mod xb"
  let ?by = "?p div xb"
  have xb0: "0 < xb" using xr xb by simp
  have yb0: "0 < yb" using yr yb by simp
  have nb0: "0 < nb" using xb0 yb0 nb by simp
  from e obtain x y where ee: "e = (x, y, bp + k div nb)"
    and x: "?bx * 32 \<le> x" "x \<le> min (?bx * 32 + 32) xr - 1"
    and y: "?by * 32 \<le> y" "y \<le> min (?by * 32 + 32) yr - 1"
    by (auto simp: bucket_rows_def)
  have p0: "0 \<le> ?p" using nb0 by simp
  have bx0: "0 \<le> ?bx" using xb0 by simp
  have by0: "0 \<le> ?by" using p0 xb0 by (simp add: pos_imp_zdiv_nonneg_iff)
  have dx: "x div 32 = ?bx" using x by (intro div32_eq) simp_all
  have dy: "y div 32 = ?by" using y by (intro div32_eq) simp_all
  have "call_key xb nb bp e = (k div nb) * nb + (?by * xb + ?bx)"
    by (simp add: call_key_def ee dx dy)
  also have "?by * xb + ?bx = ?p" by simp
  also have "(k div nb) * nb + ?p = k" by simp
  finally have key: "call_key xb nb bp e = k" .
  have sp0: "0 \<le> k div nb" using k nb0 by (simp add: pos_imp_zdiv_nonneg_iff)
  have "nb * (k div nb) + ?p = k" by simp
  then have "nb * (k div nb) < nb * P" using k p0 by linarith
  then have sp1: "k div nb < P" using nb0 by (simp add: mult_less_cancel_left_pos)
  have "0 \<le> x" "x < xr" "0 \<le> y" "y < yr" using x y bx0 by0 by simp_all
  then have "e \<in> all_calls xr yr bp P" using sp0 sp1 by (simp add: all_calls_def ee)
  with key show ?thesis by simp
qed

lemma key_rows:
  assumes xr: "1 \<le> xr" and yr: "1 \<le> yr"
    and xb: "xb = (xr + 31) div 32" and yb: "yb = (yr + 31) div 32" and nb: "nb = xb * yb"
    and e: "e \<in> all_calls xr yr bp P"
  shows "0 \<le> call_key xb nb bp e \<and> call_key xb nb bp e < nb * P \<and>
         e \<in> set (bucket_rows xr yr xb nb bp (call_key xb nb bp e))"
proof -
  obtain x y p where ee: "e = (x, y, p)" by (cases e) auto
  with e have r: "0 \<le> x" "x < xr" "0 \<le> y" "y < yr" "bp \<le> p" "p < bp + P"
    by (simp_all add: all_calls_def)
  let ?bx = "x div 32"
  let ?by = "y div 32"
  let ?sp = "p - bp"
  let ?q = "?by * xb + ?bx"
  let ?k = "?sp * nb + ?q"
  have xb0: "0 < xb" using xr xb by simp
  have yb0: "0 < yb" using yr yb by simp
  have nb0: "0 < nb" using xb0 yb0 nb by simp
  have bx: "0 \<le> ?bx" "?bx < xb"
    using r(1) div32_lt[OF r(2)] xb by (simp_all add: pos_imp_zdiv_nonneg_iff)
  have "by": "0 \<le> ?by" "?by < yb"
    using r(3) div32_lt[OF r(4)] yb by (simp_all add: pos_imp_zdiv_nonneg_iff)
  have "?by * xb \<le> (yb - 1) * xb" using "by" xb0 by (intro mult_right_mono) auto
  then have q1: "?q < nb" using bx nb by (simp add: algebra_simps)
  have q0: "0 \<le> ?q" using bx "by" xb0 by simp
  have "?sp * nb \<le> (P - 1) * nb" using r nb0 by (intro mult_right_mono) auto
  then have k1: "?k < nb * P" using q1 by (simp add: algebra_simps)
  have k0: "0 \<le> ?k" using q0 r nb0 by simp
  have kd: "?k div nb = ?sp" using q0 q1 nb0 by (simp add: div_pos_pos_trivial)
  have km: "?k mod nb = ?q" using q0 q1 nb0 by (simp add: mod_pos_pos_trivial)
  have qd: "?q div xb = ?by" using bx xb0 by (simp add: div_pos_pos_trivial)
  have qm: "?q mod xb = ?bx" using bx xb0 by (simp add: mod_pos_pos_trivial)
  have key: "call_key xb nb bp e = ?k" by (simp add: call_key_def ee)
  have x1: "?bx * 32 \<le> x" "x \<le> min (?bx * 32 + 32) xr - 1"
    using r(2) div32_lo[of x] div32_hi[of x] by (simp_all add: min_def)
  have y1: "?by * 32 \<le> y" "y \<le> min (?by * 32 + 32) yr - 1"
    using r(4) div32_lo[of y] div32_hi[of y] by (simp_all add: min_def)
  have "?sp + bp = p" by simp
  then have "e \<in> set (bucket_rows xr yr xb nb bp ?k)"
    unfolding bucket_rows_def kd km qd qm ee add.commute[of bp ?sp] using x1 y1
    by (simp only: in_rows)
  then show ?thesis using k0 k1 key by simp
qed


lemma count_list_distinct: "distinct xs \<Longrightarrow> count_list xs x = (if x \<in> set xs then 1 else 0)"
  by (induction xs) auto

lemma render_buckets_unfold:
  assumes xr: "1 \<le> xr" "xr + 32 \<le> INT_MAX" and yr: "1 \<le> yr" "yr + 32 \<le> INT_MAX"
    and P: "1 \<le> P"
    and tot: "((xr + 31) div 32) * ((yr + 31) div 32) * P \<le> INT_MAX"
  shows "render_buckets rend xr yr bp tc s =
         bucket_loop rend xr yr ((xr + 31) div 32) (((xr + 31) div 32) * ((yr + 31) div 32)) bp tc s"
proof -
  define xb where "xb = (xr + 31) div 32"
  define yb where "yb = (yr + 31) div 32"
  define nb where "nb = xb * yb"
  have M: "INT_MAX = 2147483647" "INT_MIN = - 2147483648"
    by (simp_all add: INT_MAX_def INT_MIN_def)
  have xb0: "0 < xb" using xr xb_def by simp
  have yb0: "0 < yb" using yr yb_def by simp
  have nb0: "0 < nb" using xb0 yb0 nb_def by simp
  have tot': "nb * P \<le> INT_MAX" using tot by (simp add: nb_def xb_def yb_def)
  have "nb * 1 \<le> nb * P" using nb0 P by (intro mult_left_mono) auto
  then have nbM: "nb \<le> 2147483647" using tot' M by simp
  have a1: "int_sub (int_add xr 32) 1 = xr + 31"
    using xr M by (simp add: int_add_def int_sub_def wrap32_id)
  have a2: "int_sub (int_add yr 32) 1 = yr + 31"
    using yr M by (simp add: int_add_def int_sub_def wrap32_id)
  have d1: "int_div (xr + 31) 32 = Some xb" using xr by (simp add: int_div_nonneg xb_def)
  have d2: "int_div (yr + 31) 32 = Some yb" using yr by (simp add: int_div_nonneg yb_def)
  have m: "int_mul xb yb = nb"
    unfolding int_mul_def nb_def[symmetric] using nb0 nbM by (intro wrap32_id) linarith+
  show ?thesis
    unfolding xb_def[symmetric] yb_def[symmetric] nb_def[symmetric]
    by (simp add: render_buckets_def a1 a2 d1 d2 m)
qed

lemma schedule_props:
  assumes xr: "1 \<le> xr" and yr: "1 \<le> yr"
  shows "distinct (schedule xr yr bp P) \<and> set (schedule xr yr bp P) = all_calls xr yr bp P"
proof -
  define xb where "xb = (xr + 31) div 32"
  define yb where "yb = (yr + 31) div 32"
  define nb where "nb = xb * yb"
  let ?calls = "concat (map (bucket_rows xr yr xb nb bp) [0..nb * P - 1])"
  have sch: "schedule xr yr bp P = ?calls"
    by (simp add: schedule_def Let_def xb_def yb_def nb_def)
  have dist: "distinct ?calls"
  proof (rule concat_distinct_by_key[where key = "call_key xb nb bp"])
    show "distinct [0..nb * P - 1]" by simp
    show "distinct (bucket_rows xr yr xb nb bp k)" for k
      unfolding bucket_rows_def by (rule distinct_rows)
    show "call_key xb nb bp e = k"
      if "k \<in> set [0..nb * P - 1]" "e \<in> set (bucket_rows xr yr xb nb bp k)" for k e
      using rows_key[OF xr yr xb_def yb_def nb_def _ _ that(2), of P] that(1) by simp
  qed
  have set_eq: "set ?calls = all_calls xr yr bp P"
  proof
    show "set ?calls \<subseteq> all_calls xr yr bp P"
    proof
      fix e assume "e \<in> set ?calls"
      then obtain k where k: "0 \<le> k" "k < nb * P" and e: "e \<in> set (bucket_rows xr yr xb nb bp k)"
        by auto
      from rows_key[OF xr yr xb_def yb_def nb_def k e] show "e \<in> all_calls xr yr bp P"
        by simp
    qed
    show "all_calls xr yr bp P \<subseteq> set ?calls"
    proof
      fix e assume "e \<in> all_calls xr yr bp P"
      from key_rows[OF xr yr xb_def yb_def nb_def this]
      show "e \<in> set ?calls" by auto
    qed
  qed
  show ?thesis using dist set_eq sch by simp
qed

lemma render_buckets_run:
  assumes xr: "1 \<le> xr" "xr + 32 \<le> INT_MAX" and yr: "1 \<le> yr" "yr + 32 \<le> INT_MAX"
    and P: "1 \<le> P"
    and tot: "((xr + 31) div 32) * ((yr + 31) div 32) * P \<le> INT_MAX"
    and bp: "INT_MIN \<le> bp" "bp + P - 1 \<le> INT_MAX"
  shows "render_buckets rend xr yr bp \<lparr>num_passes = P, next_bucket = 0\<rparr> s =
         map_option
           (Pair \<lparr>num_passes = P,
                  next_bucket = int_add (((xr + 31) div 32) * ((yr + 31) div 32) * P) 1\<rparr>)
           (run_calls rend (schedule xr yr bp P) s)"
proof -
  have tp: "0 \<le> ((xr + 31) div 32) * ((yr + 31) div 32) * P" using xr yr P by simp
  show ?thesis
    unfolding render_buckets_unfold[OF xr yr P tot]
    by (simp add: bucket_loop_run[OF xr yr refl refl refl P tot bp order_refl tp]
        schedule_def Let_def)
qed

lemma run_calls_log: "run_calls log_call cs l = Some (l @ cs)"
  by (induction cs arbitrary: l) (auto simp: log_call_def)

lemma pixel_calls_length:
  assumes d: "distinct calls" and s: "set calls = all_calls xr yr bp P"
    and x: "0 \<le> x" "x < xr" and y: "0 \<le> y" "y < yr"
  shows "length (filter (\<lambda>c. fst c = x \<and> fst (snd c) = y) calls) = nat P"
proof -
  let ?f = "filter (\<lambda>c. fst c = x \<and> fst (snd c) = y) calls"
  have "set ?f = (\<lambda>p. (x, y, p)) ` {bp..<bp + P}"
    using x y by (auto simp: s all_calls_def)
  moreover have "inj_on (\<lambda>p. (x, y, p)) {bp..<bp + P}" by (simp add: inj_on_def)
  ultimately have c: "card (set ?f) = nat P" by (simp add: card_image)
  have "distinct ?f" using d by simp
  from distinct_card[OF this] c show ?thesis by simp
qed

text \<open>
  Claim C1, as stated: for every resolution \<open>xres, yres \<ge> 1\<close> and every pass count \<open>P \<ge> 1\<close>
  the scheduler, run by one thread to completion, calls \<^verbatim>\<open>render\<close> exactly \<open>P\<close> times for
  every pixel. It fails where \<^verbatim>\<open>num_buckets * num_passes\<close> does not fit into an \<^verbatim>\<open>int\<close>:
  for a 1024 x 1024 image (1024 buckets) and \<open>P = 2097152\<close> the product is \<open>2^31\<close>, it wraps
  to \<^verbatim>\<open>INT_MIN\<close>, the first claimed bucket 0 is not below it, and the loop ends without a
  single call of \<^verbatim>\<open>render\<close>.
\<close>

theorem bucket_scheduler_overflow_counterexample:
  "\<not> (\<exists>tc' calls.
        render_buckets log_call 1024 1024 0 \<lparr>num_passes = 2097152, next_bucket = 0\<rparr> [] =
          Some (tc', calls) \<and>
        length (filter (\<lambda>c. fst c = 0 \<and> fst (snd c) = 0) calls) = nat 2097152)"
proof -
  have "render_buckets log_call 1024 1024 0 \<lparr>num_passes = 2097152, next_bucket = 0\<rparr> [] =
        Some (\<lparr>num_passes = 2097152, next_bucket = 1\<rparr>, [])"
    by (simp add: render_buckets_def int_div_def int_add_def int_sub_def int_mul_def wrap32_def
        INT_MIN_def bucket_done)
  then show ?thesis by simp
qed

text \<open>
  Claim C1, amended: for every resolution \<open>xres, yres \<ge> 1\<close>, every pass count \<open>P \<ge> 1\<close> and
  every first pass \<open>base_pass\<close> such that the scheduler's \<^verbatim>\<open>int\<close> arithmetic does not overflow
  (\<open>xres + 32\<close> and \<open>yres + 32\<close> are at most \<^verbatim>\<open>INT_MAX\<close>, the number of buckets times \<open>P\<close> is
  at most \<^verbatim>\<open>INT_MAX\<close>, and the passes \<open>base_pass .. base_pass + P - 1\<close> are \<^verbatim>\<open>int\<close> values),
  the scheduler loop, started by one thread with \<^verbatim>\<open>next_bucket = 0\<close> and run to completion,
  makes a fixed list of calls \<^verbatim>\<open>render(x, y, ..., pass, ...)\<close>: exactly one for every pixel
  \<open>(x, y)\<close> of the image and every pass \<open>base_pass \<le> pass < base_pass + P\<close>, none for any
  other arguments, and so exactly \<open>P\<close> for every pixel. With the recording callee the loop
  returns that list, and \<^verbatim>\<open>renderThreadFunction\<close> on an image of that resolution is the
  run of \<^verbatim>\<open>render\<close> over that list, on the thread's copy of the scene: it returns when
  every one of these calls does.
\<close>

theorem bucket_scheduler_coverage:
  fixes S :: "('s, 'o) Scene"
  assumes "1 \<le> xr" "1 \<le> yr" "1 \<le> P" "xr + 32 \<le> INT_MAX" "yr + 32 \<le> INT_MAX"
    and "((xr + 31) div 32) * ((yr + 31) div 32) * P \<le> INT_MAX"
    and "INT_MIN \<le> bp" "bp + P - 1 \<le> INT_MAX"
  shows "\<exists>tc' calls.
           render_buckets log_call xr yr bp \<lparr>num_passes = P, next_bucket = 0\<rparr> [] = Some (tc', calls) \<and>
           (\<forall>x y p. count_list calls (x, y, p) =
              (if 0 \<le> x \<and> x < xr \<and> 0 \<le> y \<and> y < yr \<and> bp \<le> p \<and> p < bp + P then 1 else 0)) \<and>
           (\<forall>x y. 0 \<le> x \<and> x < xr \<and> 0 \<le> y \<and> y < yr \<longrightarrow>
              length (filter (\<lambda>c. fst c = x \<and> fst (snd c) = y) calls) = nat P) \<and>
           (\<forall>out frame frames sc. xres out = xr \<and> yres out = yr \<longrightarrow>
              renderThreadFunction S USE_DOUBLE \<lparr>num_passes = P, next_bucket = 0\<rparr> out frame bp
                frames sc =
              map_option (\<lambda>s. (tc', snd s))
                (run_calls (\<lambda>x y pass (sc, out). render S USE_DOUBLE x y frame pass frames sc out)
                   calls (copy_scene S sc, out)))"
proof -
  let ?calls = "schedule xr yr bp P"
  let ?tc = "\<lparr>num_passes = P,
              next_bucket = int_add (((xr + 31) div 32) * ((yr + 31) div 32) * P) 1\<rparr>"
  note run = render_buckets_run[OF assms(1,4,2,5,3,6,7,8)]
  from schedule_props[OF assms(1,2), of bp P]
  have d: "distinct ?calls" and s: "set ?calls = all_calls xr yr bp P" by simp_all
  have l: "render_buckets log_call xr yr bp \<lparr>num_passes = P, next_bucket = 0\<rparr> [] =
           Some (?tc, ?calls)"
    by (simp add: run run_calls_log)
  have c: "count_list ?calls (x, y, p) =
        (if 0 \<le> x \<and> x < xr \<and> 0 \<le> y \<and> y < yr \<and> bp \<le> p \<and> p < bp + P then 1 else 0)" for x y p
    using count_list_distinct[OF d, of "(x, y, p)"] by (simp add: s all_calls_def)
  have n: "length (filter (\<lambda>c. fst c = x \<and> fst (snd c) = y) ?calls) = nat P"
    if "0 \<le> x \<and> x < xr \<and> 0 \<le> y \<and> y < yr" for x y
    using pixel_calls_length[OF d s, of x y] that by simp
  have t: "renderThreadFunction S USE_DOUBLE \<lparr>num_passes = P, next_bucket = 0\<rparr> out frame bp
             frames sc =
           map_option (\<lambda>s. (?tc, snd s))
             (run_calls (\<lambda>x y pass (sc, out). render S USE_DOUBLE x y frame pass frames sc out)
                ?calls (copy_scene S sc, out))"
    if "xres out = xr \<and> yres out = yr" for out frame frames sc
    using that
    by (auto simp: renderThreadFunction_def Let_def run split: Option.bind_split option.splits)
  show ?thesis using l c n t by blast
qed


theorem bucket_scheduler_coverage_witness:
  "(1::int) \<le> 40 \<and> (1::int) \<le> 3 \<and> (1::int) \<le> 2 \<and> 40 + 32 \<le> INT_MAX \<and> 3 + 32 \<le> INT_MAX \<and>
   ((40 + 31) div 32) * ((3 + 31) div 32) * 2 \<le> INT_MAX \<and> INT_MIN \<le> 5 \<and> 5 + 2 - 1 \<le> INT_MAX \<and>
   (\<exists>tc' calls.
      render_buckets log_call 40 3 5 \<lparr>num_passes = 2, next_bucket = 0\<rparr> [] = Some (tc', calls) \<and>
      (\<forall>x y p. count_list calls (x, y, p) =
         (if 0 \<le> x \<and> x < 40 \<and> 0 \<le> y \<and> y < 3 \<and> 5 \<le> p \<and> p < 5 + 2 then 1 else 0)) \<and>
      (\<forall>x y. 0 \<le> x \<and> x < 40 \<and> 0 \<le> y \<and> y < 3 \<longrightarrow>
         length (filter (\<lambda>c. fst c = x \<and> fst (snd c) = y) calls) = nat 2) \<and>
      (\<forall>out frame frames sc. xres out = 40 \<and> yres out = 3 \<longrightarrow>
         renderThreadFunction empty_scene False \<lparr>num_passes = 2, next_bucket = 0\<rparr> out frame 5
           frames sc =
         map_option (\<lambda>s. (tc', snd s))
           (run_calls (\<lambda>x y pass (sc, out). render empty_scene False x y frame pass frames sc out)
              calls (copy_scene empty_scene sc, out))))"
proof -
  have h: "(1::int) \<le> 40" "(1::int) \<le> 3" "(1::int) \<le> 2" "40 + 32 \<le> INT_MAX"
    "3 + 32 \<le> INT_MAX" "((40 + 31) div 32) * ((3 + 31) div 32) * 2 \<le> INT_MAX"
    "INT_MIN \<le> 5" "5 + 2 - 1 \<le> INT_MAX"
    by (simp_all add: INT_MAX_def INT_MIN_def)
  show ?thesis
    using h bucket_scheduler_coverage[where S = empty_scene and USE_DOUBLE = False, OF h]
    by blast
qed

section \<open>Properties of the path integrator\<close>

lemma int_div_total: "2 \<le> b \<Longrightarrow> int_div a b = Some (sgn a * (\<bar>a\<bar> div b))"
  by (simp add: int_div_def)

lemma RadicalInverse_loop_total:
  "2 \<le> b \<Longrightarrow> \<exists>r. RadicalInverse_loop b ib a rd ibn = Some r"
proof (induction "nat \<bar>a\<bar>" arbitrary: a rd ibn rule: less_induct)
  case less
  show ?case
  proof (cases "a = 0")
    case True
    then show ?thesis by (simp add: RadicalInverse_loop_done)
  next
    case False
    let ?n = "sgn a * (\<bar>a\<bar> div b)"
    have "\<bar>a\<bar> div b < \<bar>a\<bar>" using False less.prems by (intro int_div_less_self) auto
    moreover have "\<bar>?n\<bar> = \<bar>a\<bar> div b"
      using False less.prems by (simp add: abs_mult pos_imp_zdiv_nonneg_iff)
    ultimately have "nat \<bar>?n\<bar> < nat \<bar>a\<bar>" by simp
    from less.hyps[OF this less.prems] show ?thesis
      by (simp add: RadicalInverse_loop_step[OF False int_div_total[OF less.prems]])
  qed
qed

lemma RadicalInverse_total: "2 \<le> b \<Longrightarrow> \<exists>v. RadicalInverse a b = Some v"
  using RadicalInverse_loop_total[of b "Fin 1 / Fin (of_int b)" a 0 "Fin 1"]
  by (auto simp: RadicalInverse_def)

lemma wrap6i_range:
  "0 \<le> d \<Longrightarrow> d < 6 \<Longrightarrow> wrap6i d = (d, if d + 1 < 6 then d + 1 else 0)"
  by (simp add: wrap6i_def Let_def int_add_def wrap32_id)

lemma primes_get: "0 \<le> d \<Longrightarrow> d < 6 \<Longrightarrow> \<exists>b. array_get primes d = Some b \<and> 2 \<le> b"
proof -
  assume "0 \<le> d" "d < 6"
  then have "d \<in> {0, 1, 2, 3, 4, 5}" by auto
  then show ?thesis by (auto simp: array_get_def primes_def)
qed

lemma next_sample_total:
  assumes "0 \<le> d" "d < 6"
  shows "\<exists>u d'. next_sample pass hr d = Some (u, d') \<and> 0 \<le> d' \<and> d' < 6"
proof -
  from primes_get[OF assms] obtain b where b: "array_get primes d = Some b" "2 \<le> b" by auto
  from RadicalInverse_total[OF b(2), of pass] obtain v where "RadicalInverse pass b = Some v" ..
  then show ?thesis using b assms by (simp add: next_sample_def wrap6i_range)
qed


lemma select_event_total:
  assumes "0 \<le> d" "d < 6"
  shows "\<exists>sp alb d'. select_event m n r pass hr d = Some (sp, alb, d') \<and> 0 \<le> d' \<and> d' < 6"
proof -
  from next_sample_total[OF assms, of pass hr] obtain u d'
    where "next_sample pass hr d = Some (u, d')" "0 \<le> d'" "d' < 6" by auto
  then show ?thesis using assms by (auto simp: select_event_def Let_def)
qed

lemma scatter_total:
  assumes "0 \<le> d" "d < 6"
  shows "\<exists>v d'. scatter sp n r pass hr d = Some (v, d') \<and> 0 \<le> d' \<and> d' < 6"
proof -
  from next_sample_total[OF assms, of pass hr] obtain u1 d1
    where 1: "next_sample pass hr d = Some (u1, d1)" "0 \<le> d1" "d1 < 6" by auto
  from next_sample_total[OF 1(2,3), of pass hr] obtain u2 d2
    where 2: "next_sample pass hr d1 = Some (u2, d2)" "0 \<le> d2" "d2 < 6" by auto
  show ?thesis using 1 2 assms by (simp add: scatter_def Let_def)
qed

lemma roulette_total:
  assumes "0 \<le> dim st" "dim st < 6"
  shows "\<exists>r. roulette pass hr ma st = Some r \<and> 0 \<le> dim (the_state r) \<and> dim (the_state r) < 6 \<and>
             bounce (the_state r) = bounce st \<and>
             intersections (events (the_state r)) = intersections (events st)"
proof -
  from next_sample_total[OF assms, of pass hr] obtain u d'
    where "next_sample pass hr (dim st) = Some (u, d')" "0 \<le> d'" "d' < 6" by auto
  then show ?thesis using assms by (simp add: roulette_def Let_def intersections_def)
qed

lemma direct_light_events:
  "direct_light S sc sp hp n alb thr c evs = (c', sc', evs') \<Longrightarrow>
   intersections evs' = intersections evs"
  by (auto simp: direct_light_def Let_def intersections_def split: if_splits prod.splits)

lemma advance_total:
  assumes "0 \<le> dim st" "dim st < 6"
  shows "\<exists>r. advance pass hr sp hp n alb st = Some r \<and>
             0 \<le> dim (the_state r) \<and> dim (the_state r) < 6 \<and>
             intersections (events (the_state r)) = intersections (events st) \<and>
             bounce (the_state r) = bounce st + 1"
proof -
  let ?st = "st\<lparr>bounce := bounce st + 1\<rparr>"
  let ?ma = "std_max (std_max (vx alb) (vy alb)) (vz alb)"
  show ?thesis
  proof (cases "bounce st + 1 > 5 \<or> ?ma < Fin (1 / 10 ^ 8)")
    case True
    then show ?thesis using assms by (auto simp: advance_def Let_def)
  next
    case False
    have d: "0 \<le> dim ?st" "dim ?st < 6" using assms by simp_all
    from roulette_total[OF d, of pass hr ?ma] obtain r where r: "roulette pass hr ?ma ?st = Some r"
      and rd: "0 \<le> dim (the_state r)" "dim (the_state r) < 6"
      and rb: "bounce (the_state r) = bounce ?st"
      and ri: "intersections (events (the_state r)) = intersections (events ?st)"
      by blast
    show ?thesis
    proof (cases r)
      case (Break s)
      then show ?thesis using False r rd rb ri by (auto simp: advance_def Let_def)
    next
      case (Continue s)
      with rd have sd: "0 \<le> dim s" "dim s < 6" by simp_all
      from scatter_total[OF sd, of sp n "ray s" pass hr] obtain v d'
        where "scatter sp n (ray s) pass hr (dim s) = Some (v, d')" "0 \<le> d'" "d' < 6" by auto
      then show ?thesis using False r Continue rb ri by (auto simp: advance_def Let_def)
    qed
  qed
qed

lemma surface_hit_total:
  assumes "0 \<le> dim st" "dim st < 6"
  shows "\<exists>r. surface_hit S pass hr obj t st = Some r \<and>
             0 \<le> dim (the_state r) \<and> dim (the_state r) < 6 \<and>
             intersections (events (the_state r)) = intersections (events st) \<and>
             bounce (the_state r) = bounce st + 1"
proof -
  let ?hp = "ray_o (ray st) + vec_scale (ray_d (ray st)) t"
  obtain n sc2 where gn: "getNormal S (scene st) obj ?hp = (n, sc2)" by (metis prod.exhaust)
  let ?m = "mat S obj"
  let ?st1 = "if bounce st = 0
              then st\<lparr>normal_out := vec_adds (vec_scale (Vec3 (vx n) (vz n) (vy n)) (Fin (5 / 10)))
                                       (Fin (5 / 10)),
                      albedo_out := m_albedo ?m\<rparr>
              else st"
  let ?st2 = "?st1\<lparr>scene := sc2, contribution := contribution ?st1 + throughput ?st1 * m_emission ?m\<rparr>"
  have d2: "0 \<le> dim ?st2" "dim ?st2 < 6" using assms by simp_all
  from select_event_total[OF d2, of ?m n "ray ?st2" pass hr]
  obtain sp alb d1 where se: "select_event ?m n (ray ?st2) pass hr (dim ?st2) = Some (sp, alb, d1)"
    and d1: "0 \<le> d1" "d1 < 6" by blast
  obtain c sc3 evs where dl:
    "direct_light S (scene ?st2) sp ?hp n alb (throughput ?st2) (contribution ?st2) (events ?st2) =
     (c, sc3, evs)" by (metis prod.exhaust)
  let ?st3 = "?st2\<lparr>dim := d1, contribution := c, scene := sc3, events := evs\<rparr>"
  have d3: "0 \<le> dim ?st3" "dim ?st3 < 6" using d1 by simp_all
  from advance_total[OF d3, of pass hr sp ?hp n alb] obtain r
    where r: "advance pass hr sp ?hp n alb ?st3 = Some r"
      and rr: "0 \<le> dim (the_state r)" "dim (the_state r) < 6"
        "intersections (events (the_state r)) = intersections (events ?st3)"
        "bounce (the_state r) = bounce ?st3 + 1" by blast
  have ev: "intersections evs = intersections (events st)"
    using direct_light_events[OF dl] by (simp split: if_splits)
  have unf: "surface_hit S pass hr obj t st = advance pass hr sp ?hp n alb ?st3"
    unfolding surface_hit_def Let_def gn prod.case se bind.bind_lunit dl ..
  show ?thesis using r rr ev unfolding unf by (auto split: if_splits)
qed

lemma bounce_step_total:
  assumes "0 \<le> dim st" "dim st < 6"
  shows "\<exists>r. bounce_step S pass hr st = Some r \<and>
             0 \<le> dim (the_state r) \<and> dim (the_state r) < 6 \<and>
             intersections (events (the_state r)) = intersections (events st) + 1 \<and>
             bounce (the_state r) \<le> bounce st + 1"
proof -
  obtain ho t sc1 where ni: "nearestIntersection S (scene st) (ray st) = ((ho, t), sc1)"
    by (metis prod.exhaust)
  let ?st = "st\<lparr>scene := sc1, events := events st @ [Intersect (ray st)]\<rparr>"
  show ?thesis
  proof (cases ho)
    case None
    then show ?thesis using ni assms by (simp add: bounce_step_def Let_def intersections_def)
  next
    case (Some obj)
    have d: "0 \<le> dim ?st" "dim ?st < 6" using assms by simp_all
    from surface_hit_total[OF d, of S pass hr obj t] obtain r
      where "surface_hit S pass hr obj t ?st = Some r"
        "0 \<le> dim (the_state r)" "dim (the_state r) < 6"
        "intersections (events (the_state r)) = intersections (events ?st)"
        "bounce (the_state r) = bounce ?st + 1" by blast
    then show ?thesis using ni Some by (simp add: bounce_step_def Let_def intersections_def)
  qed
qed


lemma path_loop_Break:
  "bounce_step S pass hr st = Some (Break st') \<Longrightarrow> path_loop S pass hr st = Some st'"
  by (subst path_loop.simps) simp

lemma path_loop_Continue:
  "bounce_step S pass hr st = Some (Continue st') \<Longrightarrow>
   path_loop S pass hr st = path_loop S pass hr st'"
  by (subst path_loop.simps) simp

lemma path_loop_bound:
  "0 \<le> dim st \<Longrightarrow> dim st < 6 \<Longrightarrow> 0 \<le> bounce st \<Longrightarrow> bounce st \<le> 5 \<Longrightarrow>
   \<exists>st'. path_loop S pass hr st = Some st' \<and>
         intersections (events st') + nat (bounce st) \<le> intersections (events st) + 6"
proof (induction S pass hr st rule: path_loop.induct)
  case (1 S pass hr st)
  from bounce_step_total[OF "1.prems"(1,2), of S pass hr] obtain r
    where r: "bounce_step S pass hr st = Some r"
      and rd: "0 \<le> dim (the_state r)" "dim (the_state r) < 6"
      and ri: "intersections (events (the_state r)) = intersections (events st) + 1"
    by blast
  show ?case
  proof (cases r)
    case (Break s)
    then have "path_loop S pass hr st = Some s" using r by (simp add: path_loop_Break)
    moreover have "intersections (events s) + nat (bounce st) \<le> intersections (events st) + 6"
      using ri Break "1.prems"(3,4) by simp
    ultimately show ?thesis by simp
  next
    case (Continue s)
    then have bs: "bounce_step S pass hr st = Some (Continue s)" using r by simp
    from bounce_step_Continue[OF bs] have b: "bounce s = bounce st + 1" "bounce s \<le> 5" by simp_all
    have sd: "0 \<le> dim s" "dim s < 6" using rd Continue by simp_all
    have b0: "0 \<le> bounce s" using b "1.prems"(3) by simp
    from "1.IH"[OF bs refl sd b0 b(2)] obtain st'
      where l: "path_loop S pass hr s = Some st'"
        and c: "intersections (events st') + nat (bounce s) \<le> intersections (events s) + 6"
      by blast
    have "path_loop S pass hr st = Some st'" using l bs by (simp add: path_loop_Continue)
    moreover have "intersections (events st') + nat (bounce st) \<le> intersections (events st) + 6"
      using c b ri Continue "1.prems"(3) by simp
    ultimately show ?thesis by simp
  qed
qed


lemma rr_thresh_ok:
  "\<not> ma < Fin (1 / 10 ^ 8) \<Longrightarrow>
   Fin (1 / 10 ^ 8) \<le> std_max (Fin 0) (std_min (Fin 1) ma) \<and>
   std_max (Fin 0) (std_min (Fin 1) ma) \<le> Fin 1"
  by (cases ma) (auto simp: std_max_def std_min_def less_fp_def less_eq_fp_def)

lemma roulette_events:
  "roulette pass hr ma st = Some r \<Longrightarrow> \<not> ma < Fin (1 / 10 ^ 8) \<Longrightarrow>
   list_all divisor_ok (events st) \<Longrightarrow> list_all divisor_ok (events (the_state r))"
  using rr_thresh_ok[of ma]
  by (auto simp: roulette_def Let_def split: if_splits prod.splits Option.bind_splits)

lemma advance_events:
  "advance pass hr sp hp n alb st = Some r \<Longrightarrow>
   list_all divisor_ok (events st) \<Longrightarrow> list_all divisor_ok (events (the_state r))"
  by (auto simp: advance_def Let_def split: if_splits prod.splits Option.bind_splits step.splits
      dest!: roulette_events)

lemma direct_light_divisors:
  "direct_light S sc sp hp n alb thr c evs = (c', sc', evs') \<Longrightarrow>
   list_all divisor_ok evs \<Longrightarrow> list_all divisor_ok evs'"
  by (auto simp: direct_light_def Let_def split: if_splits prod.splits)

lemma surface_hit_events:
  "surface_hit S pass hr obj t st = Some r \<Longrightarrow>
   list_all divisor_ok (events st) \<Longrightarrow> list_all divisor_ok (events (the_state r))"
  by (auto simp: surface_hit_def Let_def split: if_splits prod.splits Option.bind_splits
      dest!: advance_events direct_light_divisors)

lemma bounce_step_events:
  "bounce_step S pass hr st = Some r \<Longrightarrow>
   list_all divisor_ok (events st) \<Longrightarrow> list_all divisor_ok (events (the_state r))"
  by (auto simp: bounce_step_def Let_def split: prod.splits option.splits
      dest!: surface_hit_events)

lemma path_loop_events:
  "path_loop S pass hr st = Some st' \<Longrightarrow>
   list_all divisor_ok (events st) \<Longrightarrow> list_all divisor_ok (events st')"
proof (induction S pass hr st rule: path_loop.induct)
  case (1 S pass hr st)
  from "1.prems"(1) obtain r where r: "bounce_step S pass hr st = Some r"
    by (subst (asm) path_loop.simps) (auto split: option.splits)
  from bounce_step_events[OF r "1.prems"(2)] have ok: "list_all divisor_ok (events (the_state r))" .
  show ?case
  proof (cases r)
    case (Break s)
    then have "st' = s" using r "1.prems"(1) by (simp add: path_loop_Break)
    then show ?thesis using ok Break by simp
  next
    case (Continue s)
    then have bs: "bounce_step S pass hr st = Some (Continue s)" using r by simp
    then have "path_loop S pass hr s = Some st'" using "1.prems"(1) by (simp add: path_loop_Continue)
    from "1.IH"[OF bs refl this] ok Continue show ?thesis by simp
  qed
qed

lemmas step_eval = bounce_step_def surface_hit_def advance_def roulette_def scatter_def
  select_event_def direct_light_def next_sample_def wrap6i_def array_get_def primes_def
  RadicalInverse_zero wrap1r_def fp_ops dot_def vec_scale_def vec_adds_def vec_splat_def
  plus_vec3_def minus_vec3_def times_vec3_def std_max_def std_min_def Let_def
  int_add_def wrap32_def mirror_scene_def

lemma vec_scale_fourth:
  "vec_scale (vec_scale (Vec3 (Fin a) (Fin b) (Fin c)) (h * h)) (h * h) =
   vec_scale (Vec3 (Fin a) (Fin b) (Fin c)) (h * h * h * h)"
  by (cases h) (auto simp: vec_scale_def times_fp_def signed_inf_def algebra_simps)

lemma sky_colour_gradient: "sky_colour r = sky_gradient (vy (ray_d r))"
proof -
  let ?h = "Fin 1 - std_max (Fin 0) (vy (ray_d r))"
  have up: "vec_scale (vec_scale (Vec3 (Fin 53) (Fin 112) (Fin 128)) (Fin 1 / Fin 255))
              (Fin (75 / 100)) =
            Vec3 (Fin (53 / 255 * (75 / 100))) (Fin (112 / 255 * (75 / 100)))
              (Fin (128 / 255 * (75 / 100)))"
    by (simp add: vec_scale_def fp_ops)
  have hz: "vec_scale (vec_scale (Vec3 (Fin 182) (Fin 175) (Fin 157)) (Fin 1 / Fin 255))
              (Fin (8 / 10)) =
            Vec3 (Fin (182 / 255 * (8 / 10))) (Fin (175 / 255 * (8 / 10)))
              (Fin (157 / 255 * (8 / 10)))"
    by (simp add: vec_scale_def fp_ops)
  have d: "Vec3 (Fin (182 / 255 * (8 / 10))) (Fin (175 / 255 * (8 / 10)))
             (Fin (157 / 255 * (8 / 10))) -
           Vec3 (Fin (53 / 255 * (75 / 100))) (Fin (112 / 255 * (75 / 100)))
             (Fin (128 / 255 * (75 / 100))) =
           Vec3 (Fin (182 / 255 * (8 / 10) - 53 / 255 * (75 / 100)))
             (Fin (175 / 255 * (8 / 10) - 112 / 255 * (75 / 100)))
             (Fin (157 / 255 * (8 / 10) - 128 / 255 * (75 / 100)))"
    by (simp add: minus_vec3_def fp_ops)
  show ?thesis
    unfolding sky_colour_def sky_gradient_def Let_def up hz d
    by (simp only: vec_scale_fourth)
qed

text \<open>
  Claim C9: when the scene reports no hit for the current ray, the path adds the current
  throughput times the sky colour to its contribution, where the sky colour is the
  interpolation between the two fixed colours driven by \<open>h^4\<close> with
  \<open>h = 1 - max(0, ray.direction.y)\<close>, and the path ends: the loop returns after this one
  intersection test, with nothing else changed.
\<close>

theorem sky_on_miss:
  "nearestIntersection S (scene st) (ray st) = ((None, t), sc') \<Longrightarrow>
   path_loop S pass hash_random st =
   Some (st\<lparr>scene := sc', events := events st @ [Intersect (ray st)],
            contribution := contribution st + throughput st * sky_gradient (vy (ray_d (ray st)))\<rparr>)"
  by (rule path_loop_Break) (simp add: bounce_step_def Let_def sky_colour_gradient)

lemma mirror_run: "path_loop mirror_scene 0 (Fin 0) mirror_start = Some mirror_final"
  by (simp add: step_eval mirror_start_def mirror_final_def path_loop_Break path_loop_Continue)

theorem sky_on_miss_witness:
  "nearestIntersection empty_scene (scene mirror_start) (ray mirror_start) = ((None, PInf), ()) \<and>
   path_loop empty_scene 0 (Fin 0) mirror_start =
   Some (mirror_start\<lparr>scene := (), events := events mirror_start @ [Intersect (ray mirror_start)],
           contribution := contribution mirror_start +
             throughput mirror_start * sky_gradient (vy (ray_d (ray mirror_start)))\<rparr>)"
proof -
  have h: "nearestIntersection empty_scene (scene mirror_start) (ray mirror_start) =
           ((None, PInf), ())"
    by (simp add: empty_scene_def)
  show ?thesis using h sky_on_miss[OF h, of 0 "Fin 0"] by simp
qed

text \<open>
  Claim C3: for every scene and every pixel the bounce loop of \<^verbatim>\<open>render\<close> terminates, after at
  most 6 intersection tests of the loop. The loop starts with \<^verbatim>\<open>bounce = 0\<close> and with \<^verbatim>\<open>dim\<close>
  in the range of \<^verbatim>\<open>wrap6i\<close>; the counter is incremented in every iteration that hits
  (lemma \<open>bounce_step_Continue\<close>: an iteration that reaches the end of the body has
  incremented \<^verbatim>\<open>bounce\<close> to at most 5).
\<close>

theorem bounce_loop_terminates:
  "0 \<le> dim st \<and> dim st < 6 \<and> bounce st = 0 \<Longrightarrow>
   \<exists>st'. path_loop S pass hash_random st = Some st' \<and>
         intersections (events st') \<le> intersections (events st) + 6"
  using path_loop_bound[of st S pass hash_random] by auto

theorem bounce_loop_terminates_witness:
  "0 \<le> dim mirror_start \<and> dim mirror_start < 6 \<and> bounce mirror_start = 0 \<and>
   (\<exists>st'. path_loop mirror_scene 0 (Fin 0) mirror_start = Some st' \<and>
          intersections (events st') \<le> intersections (events mirror_start) + 6) \<and>
   intersections (events mirror_final) = 6"
proof -
  have h: "0 \<le> dim mirror_start \<and> dim mirror_start < 6 \<and> bounce mirror_start = 0"
    by (simp add: mirror_start_def)
  have "intersections (events mirror_final) = 6"
    by (simp add: mirror_final_def intersections_def)
  then show ?thesis using h bounce_loop_terminates[OF h, of mirror_scene 0 "Fin 0"] by blast
qed

text \<open>
  Claim C7: on every path, whenever the throughput is divided by the clamped survival
  probability of the roulette, the divisor is strictly positive: it is at least \<open>1e-8\<close> and at
  most 1. (A NaN albedo passes the zero-albedo test, and is clamped to 1.)
\<close>

theorem roulette_divisor_positive:
  "path_loop S pass hash_random st = Some st' \<Longrightarrow> events st = [] \<Longrightarrow>
   RouletteDivide d \<in> set (events st') \<Longrightarrow>
   Fin 0 < d \<and> Fin (1 / 10 ^ 8) \<le> d \<and> d \<le> Fin 1"
proof -
  assume run: "path_loop S pass hash_random st = Some st'" and e: "events st = []"
    and d: "RouletteDivide d \<in> set (events st')"
  have "list_all divisor_ok (events st')" using path_loop_events[OF run] e by simp
  then have "divisor_ok (RouletteDivide d)" using d by (auto simp: list_all_iff)
  then have b: "Fin (1 / 10 ^ 8) \<le> d" "d \<le> Fin 1" by simp_all
  then have "Fin 0 < d" by (cases d) (simp_all add: less_fp_def less_eq_fp_def)
  with b show ?thesis by simp
qed

theorem roulette_divisor_positive_witness:
  "path_loop mirror_scene 0 (Fin 0) mirror_start = Some mirror_final \<and>
   events mirror_start = [] \<and>
   RouletteDivide (Fin (19 / 20)) \<in> set (events mirror_final) \<and>
   Fin 0 < Fin (19 / 20) \<and> Fin (1 / 10 ^ 8) \<le> Fin (19 / 20) \<and> Fin (19 / 20) \<le> Fin 1"
proof -
  have e: "events mirror_start = []" by (simp add: mirror_start_def)
  have m: "RouletteDivide (Fin (19 / 20)) \<in> set (events mirror_final)"
    by (simp add: mirror_final_def)
  show ?thesis using mirror_run e m roulette_divisor_positive[OF mirror_run e m] by blast
qed

lemma fp_cube: "q * fp_sqrt q = fp_sqrt q * fp_sqrt q * fp_sqrt q"
  by (cases q) (auto simp: times_fp_def)

lemma std_max_pos: "x > Fin 0 \<Longrightarrow> std_max (Fin 0) x = x"
  by (simp add: std_max_def)

lemma direct_light_eq_spec:
  "direct_light S sc sample_specular hit_p hit_normal eff_albedo thr contrib evs =
   direct_light_spec S sc sample_specular hit_p hit_normal eff_albedo thr contrib evs"
  by (auto simp: direct_light_def direct_light_spec_def Let_def fp_cube std_max_pos
      split: prod.splits)


lemma roulette_contribution:
  "roulette pass hr ma st = Some r \<Longrightarrow> contribution (the_state r) = contribution st"
  by (auto simp: roulette_def Let_def split: if_splits prod.splits Option.bind_splits)

lemma advance_contribution:
  "advance pass hr sp hp n alb st = Some r \<Longrightarrow> contribution (the_state r) = contribution st"
  by (auto simp: advance_def Let_def split: if_splits prod.splits Option.bind_splits step.splits
      dest!: roulette_contribution)

lemma surface_hit_contribution:
  assumes se: "select_event (mat S obj) (fst (getNormal S (scene st) obj
                 (ray_o (ray st) + vec_scale (ray_d (ray st)) t))) (ray st) pass hr (dim st) =
               Some (sp, alb, d1)"
    and r: "surface_hit S pass hr obj t st = Some r"
  shows "contribution (the_state r) =
         fst (direct_light_spec S
                (snd (getNormal S (scene st) obj (ray_o (ray st) + vec_scale (ray_d (ray st)) t)))
                sp (ray_o (ray st) + vec_scale (ray_d (ray st)) t)
                (fst (getNormal S (scene st) obj (ray_o (ray st) + vec_scale (ray_d (ray st)) t)))
                alb (throughput st) (contribution st + throughput st * m_emission (mat S obj))
                (events st))"
proof -
  let ?hp = "ray_o (ray st) + vec_scale (ray_d (ray st)) t"
  obtain n sc2 where gn: "getNormal S (scene st) obj ?hp = (n, sc2)" by (metis prod.exhaust)
  obtain c sc3 evs where dl:
    "direct_light S sc2 sp ?hp n alb (throughput st)
       (contribution st + throughput st * m_emission (mat S obj)) (events st) = (c, sc3, evs)"
    by (metis prod.exhaust)
  have se': "select_event (mat S obj) n (ray st) pass hr (dim st) = Some (sp, alb, d1)"
    using se gn by simp
  from r obtain st3 where a: "advance pass hr sp ?hp n alb st3 = Some r"
    and c3: "contribution st3 = c"
    using gn se' dl by (auto simp: surface_hit_def Let_def split: if_splits)
  from advance_contribution[OF a] c3 have "contribution (the_state r) = c" by simp
  then show ?thesis using dl gn by (simp add: direct_light_eq_spec[symmetric])
qed


text \<open>
  Claim C8: direct lighting is evaluated only on diffuse bounces; its contribution is the
  effective albedo times \<open>max(0, n . lightVec)\<close> divided by \<open>distance^3\<close> and scaled by 720,
  weighted by the current throughput, and it is added to the contribution of the path if and
  only if the shadow ray reports no hit or a hit at distance \<open>\<ge>\<close> the distance to the light.
  The code of the direct lighting equals the definition in these words, and after an
  iteration that hits a surface the contribution of the path is the one that definition
  gives, from the contribution with the emission added and the throughput of the path.
\<close>

theorem direct_lighting:
  "direct_light S sc sample_specular hit_p hit_normal eff_albedo thr contrib evs =
   direct_light_spec S sc sample_specular hit_p hit_normal eff_albedo thr contrib evs \<and>
   (select_event (mat S obj) (fst (getNormal S (scene st) obj (hit_point st t))) (ray st)
      pass hash_random (dim st) = Some (specular, alb, dim1) \<and>
    surface_hit S pass hash_random obj t st = Some r \<longrightarrow>
    contribution (the_state r) =
    fst (direct_light_spec S (snd (getNormal S (scene st) obj (hit_point st t))) specular
           (hit_point st t) (fst (getNormal S (scene st) obj (hit_point st t))) alb
           (throughput st) (contribution st + throughput st * m_emission (mat S obj))
           (events st)))"
  using direct_light_eq_spec[of S sc sample_specular hit_p hit_normal eff_albedo thr contrib evs]
    surface_hit_contribution[of S obj st t pass hash_random specular alb dim1 r]
  by (simp add: hit_point_def)

theorem direct_lighting_witness:
  "select_event (mat lit_scene ())
     (fst (getNormal lit_scene (scene mirror_start) () (hit_point mirror_start (Fin 1))))
     (ray mirror_start) 0 (Fin 0) (dim mirror_start) = Some (False, vec_splat (Fin (1 / 2)), 0) \<and>
   (\<exists>r. surface_hit lit_scene 0 (Fin 0) () (Fin 1) mirror_start = Some r \<and>
        contribution (the_state r) =
        Vec3 (Fin (2520 / (257 * sqrt 257))) (Fin (2520 / (257 * sqrt 257)))
          (Fin (2520 / (257 * sqrt 257))))"
proof -
  have se: "select_event (mat lit_scene ())
     (fst (getNormal lit_scene (scene mirror_start) () (hit_point mirror_start (Fin 1))))
     (ray mirror_start) 0 (Fin 0) (dim mirror_start) = Some (False, vec_splat (Fin (1 / 2)), 0)"
    by (simp add: select_event_def lit_scene_def mirror_start_def)
  have d: "0 \<le> dim mirror_start" "dim mirror_start < 6" by (simp_all add: mirror_start_def)
  from surface_hit_total[OF d, of lit_scene 0 "Fin 0" "()" "Fin 1"] obtain r
    where r: "surface_hit lit_scene 0 (Fin 0) () (Fin 1) mirror_start = Some r" by blast
  have v: "fst (direct_light_spec lit_scene
                 (snd (getNormal lit_scene (scene mirror_start) () (hit_point mirror_start (Fin 1))))
                 False (hit_point mirror_start (Fin 1))
                 (fst (getNormal lit_scene (scene mirror_start) () (hit_point mirror_start (Fin 1))))
                 (vec_splat (Fin (1 / 2))) (throughput mirror_start)
                 (contribution mirror_start + throughput mirror_start * m_emission (mat lit_scene ()))
                 (events mirror_start)) =
           Vec3 (Fin (2520 / (257 * sqrt 257))) (Fin (2520 / (257 * sqrt 257)))
             (Fin (2520 / (257 * sqrt 257)))"
    by (simp add: direct_light_spec_def lit_scene_def mirror_start_def hit_point_def Let_def
        fp_ops dot_def vec_scale_def vec_div_def vec_splat_def plus_vec3_def minus_vec3_def
        times_vec3_def std_max_def)
  from direct_lighting[of lit_scene "()" False "Vec3 (Fin 0) (Fin 0) (Fin 0)"
      "Vec3 (Fin 0) (Fin 0) (Fin 0)" "Vec3 (Fin 0) (Fin 0) (Fin 0)" "Vec3 (Fin 0) (Fin 0) (Fin 0)"
      "Vec3 (Fin 0) (Fin 0) (Fin 0)" "[]" "()" mirror_start "Fin 1" 0 "Fin 0" False
      "vec_splat (Fin (1 / 2))" 0 r] se r v
  have "contribution (the_state r) =
        Vec3 (Fin (2520 / (257 * sqrt 257))) (Fin (2520 / (257 * sqrt 257)))
          (Fin (2520 / (257 * sqrt 257)))" by simp
  then show ?thesis using se r by blast
qed

subsection \<open>The log is a ghost: no value of a path depends on it\<close>

lemma same_path_fields:
  "same_path a b \<longleftrightarrow>
     ray a = ray b \<and> contribution a = contribution b \<and> throughput a = throughput b \<and>
     normal_out a = normal_out b \<and> albedo_out a = albedo_out b \<and> bounce a = bounce b \<and>
     dim a = dim b \<and> scene a = scene b"
  by (cases a; cases b) (auto simp: same_path_def)

lemma direct_light_log:
  "fst (direct_light S sc sp hp hn ea thr c e1) = fst (direct_light S sc sp hp hn ea thr c e2) \<and>
   fst (snd (direct_light S sc sp hp hn ea thr c e1)) =
   fst (snd (direct_light S sc sp hp hn ea thr c e2))"
  by (simp add: direct_light_def Let_def split: prod.splits)

lemma roulette_log:
  "same_path a b \<Longrightarrow>
   rel_option (rel_step same_path) (roulette pass h m a) (roulette pass h m b)"
  by (auto simp: roulette_def Let_def same_path_fields split: Option.bind_split prod.splits)

lemma advance_log:
  assumes "same_path a b"
  shows "rel_option (rel_step same_path) (advance pass h sp hp hn ea a) (advance pass h sp hp hn ea b)"
proof -
  let ?a = "a\<lparr>bounce := bounce a + 1\<rparr>" and ?b = "b\<lparr>bounce := bounce b + 1\<rparr>"
  have s: "same_path ?a ?b" using assms by (simp add: same_path_fields)
  from roulette_log[OF s] have
    r: "rel_option (rel_step same_path) (roulette pass h m ?a) (roulette pass h m ?b)" for m .
  show ?thesis
    unfolding advance_def Let_def
    using s r[of "std_max (std_max (vx ea) (vy ea)) (vz ea)"]
    by (auto simp: same_path_fields option.rel_sel
        split: Option.bind_split prod.splits step.splits option.splits)
qed


lemma surface_hit_log:
  assumes "same_path a b"
  shows "rel_option (rel_step same_path) (surface_hit S pass h obj t a) (surface_hit S pass h obj t b)"
proof -
  have f: "ray a = ray b" "contribution a = contribution b" "throughput a = throughput b"
    "normal_out a = normal_out b" "albedo_out a = albedo_out b" "bounce a = bounce b"
    "dim a = dim b" "scene a = scene b"
    using assms by (simp_all add: same_path_fields)
  show ?thesis
  proof (cases "getNormal S (scene b) obj (ray_o (ray b) + vec_scale (ray_d (ray b)) t)")
    case (Pair hn sc2)
    show ?thesis
    proof (cases "select_event (mat S obj) hn (ray b) pass h (dim b)")
      case None
      then show ?thesis by (simp add: surface_hit_def Let_def f Pair)
    next
      case (Some r)
      obtain sp ea d1 where r: "r = (sp, ea, d1)" by (cases r)
      let ?hp = "ray_o (ray b) + vec_scale (ray_d (ray b)) t"
      let ?c = "contribution b + throughput b * m_emission (mat S obj)"
      obtain c1 s1 e1 where da:
        "direct_light S sc2 sp ?hp hn ea (throughput b) ?c (events a) = (c1, s1, e1)"
        by (cases "direct_light S sc2 sp ?hp hn ea (throughput b) ?c (events a)")
      obtain c2 s2 e2 where db:
        "direct_light S sc2 sp ?hp hn ea (throughput b) ?c (events b) = (c2, s2, e2)"
        by (cases "direct_light S sc2 sp ?hp hn ea (throughput b) ?c (events b)")
      from direct_light_log[of S sc2 sp ?hp hn ea "throughput b" ?c "events a" "events b"]
      have e: "c1 = c2" "s1 = s2" by (simp_all add: da db)
      have "rel_option (rel_step same_path) (advance pass h sp ?hp hn ea x) (advance pass h sp ?hp hn ea y)"
        if "same_path x y" for x y :: "'a path"
        using that by (rule advance_log)
      note adv = this
      show ?thesis
        unfolding surface_hit_def Let_def
        by (simp add: f Pair Some r da db e) (auto intro!: adv simp: same_path_fields f)
    qed
  qed
qed

lemma bounce_step_log:
  assumes "same_path a b"
  shows "rel_option (rel_step same_path) (bounce_step S pass h a) (bounce_step S pass h b)"
proof -
  have f: "ray a = ray b" "contribution a = contribution b" "throughput a = throughput b"
    "normal_out a = normal_out b" "albedo_out a = albedo_out b" "bounce a = bounce b"
    "dim a = dim b" "scene a = scene b"
    using assms by (simp_all add: same_path_fields)
  obtain ho ht sc1 where n: "nearestIntersection S (scene b) (ray b) = ((ho, ht), sc1)"
    by (cases "nearestIntersection S (scene b) (ray b)") auto
  show ?thesis
  proof (cases ho)
    case None
    then show ?thesis by (simp add: bounce_step_def Let_def f n same_path_fields)
  next
    case (Some obj)
    have "same_path (a\<lparr>scene := sc1, events := events a @ [Intersect (ray b)]\<rparr>)
            (b\<lparr>scene := sc1, events := events b @ [Intersect (ray b)]\<rparr>)"
      by (simp add: same_path_fields f)
    from surface_hit_log[OF this] show ?thesis
      by (simp add: bounce_step_def Let_def f n Some)
  qed
qed

lemma path_loop_log:
  "same_path a b \<Longrightarrow> rel_option same_path (path_loop S pass h a) (path_loop S pass h b)"
proof (induction S pass h a arbitrary: b rule: path_loop.induct)
  case (1 S pass h a)
  from bounce_step_log[OF "1.prems"]
  have r: "rel_option (rel_step same_path) (bounce_step S pass h a) (bounce_step S pass h b)" .
  show ?case
  proof (cases "bounce_step S pass h a")
    case None
    with r have "bounce_step S pass h b = None" by (cases "bounce_step S pass h b") simp_all
    with None show ?thesis by (simp add: path_loop.simps[of S pass h a] path_loop.simps[of S pass h b])
  next
    case (Some x)
    with r obtain y where y: "bounce_step S pass h b = Some y" "rel_step same_path x y"
      by (cases "bounce_step S pass h b") simp_all
    show ?thesis
    proof (cases x)
      case (Break a')
      with y obtain b' where "y = Break b'" "same_path a' b'" by (cases y) simp_all
      then show ?thesis using Some Break y
        by (simp add: path_loop.simps[of S pass h a] path_loop.simps[of S pass h b])
    next
      case (Continue a')
      with y obtain b' where b: "y = Continue b'" "same_path a' b'" by (cases y) simp_all
      from "1.IH"[OF Some Continue b(2)] show ?thesis using Some Continue y b
        by (simp add: path_loop.simps[of S pass h a] path_loop.simps[of S pass h b])
    qed
  qed
qed

section \<open>Properties of the per-pixel evaluation and of the worker thread\<close>

lemma add_at_Some:
  "add_at xs i v = Some ys \<longleftrightarrow>
   0 \<le> i \<and> i < int (length xs) \<and> ys = xs[nat i := xs ! nat i + v]"
  by (auto simp: add_at_def array_get_def)

lemma camera_ray_total:
  "\<exists>r d. camera_ray x y frame pass frames xr yr hr = Some (r, d) \<and> 0 \<le> d \<and> d < 6"
proof -
  from next_sample_total[of 0 pass hr] obtain u1 d1
    where 1: "next_sample pass hr 0 = Some (u1, d1)" "0 \<le> d1" "d1 < 6" by auto
  from next_sample_total[OF 1(2,3), of pass hr] obtain u2 d2
    where 2: "next_sample pass hr d1 = Some (u2, d2)" "0 \<le> d2" "d2 < 6" by auto
  from next_sample_total[OF 2(2,3), of pass hr] obtain u3 d3
    where 3: "next_sample pass hr d2 = Some (u3, d3)" "0 \<le> d3" "d3 < 6" by auto
  show ?thesis
    by (cases "frames \<le> 0") (simp_all add: camera_ray_def Let_def 1 2 3)
qed

lemma render_Some:
  fixes S :: "('s, 'o) Scene"
  assumes "render S U x y frame pass frames sc out = Some (sc', out')"
  shows "\<exists>st :: 's path. 0 \<le> int_add (int_mul y (xres out)) x \<and>
              int_add (int_mul y (xres out)) x < int (length (beauty out)) \<and>
              int_add (int_mul y (xres out)) x < int (length (normal out)) \<and>
              int_add (int_mul y (xres out)) x < int (length (albedo out)) \<and>
              sc' = scene st \<and>
              out' = out\<lparr>beauty := (beauty out)[nat (int_add (int_mul y (xres out)) x) :=
                                    beauty out ! nat (int_add (int_mul y (xres out)) x) +
                                    contribution st],
                         normal := (normal out)[nat (int_add (int_mul y (xres out)) x) :=
                                    normal out ! nat (int_add (int_mul y (xres out)) x) +
                                    normal_out st],
                         albedo := (albedo out)[nat (int_add (int_mul y (xres out)) x) :=
                                    albedo out ! nat (int_add (int_mul y (xres out)) x) +
                                    albedo_out st]\<rparr>"
proof -
  let ?i = "int_add (int_mul y (xres out)) x"
  let ?hr = "uintToUnitReal U
               (hash (word_of_int (int_add (int_mul (int_mul frame (xres out)) (yres out)) ?i)))"
  let ?c = "camera_ray x y frame pass frames (xres out) (yres out) ?hr"
  from assms obtain r d where c: "?c = Some (r, d)"
    by (cases ?c) (auto simp: render_def Let_def)
  let ?p = "path_loop S pass ?hr
              \<lparr>ray = r, contribution = vec_splat (Fin 0), throughput = vec_splat (Fin 1),
               normal_out = vec_splat (Fin 0), albedo_out = vec_splat (Fin 0), bounce = 0,
               dim = d, scene = sc, events = []\<rparr>"
  from assms c obtain st where p: "?p = Some st"
    by (cases ?p) (auto simp: render_def Let_def)
  from assms c p obtain b where b: "add_at (beauty out) ?i (contribution st) = Some b"
    by (cases "add_at (beauty out) ?i (contribution st)") (auto simp: render_def Let_def)
  from assms c p b obtain n where n: "add_at (normal out) ?i (normal_out st) = Some n"
    by (cases "add_at (normal out) ?i (normal_out st)") (auto simp: render_def Let_def)
  from assms c p b n obtain a where a: "add_at (albedo out) ?i (albedo_out st) = Some a"
    by (cases "add_at (albedo out) ?i (albedo_out st)") (auto simp: render_def Let_def)
  from assms c p b n a have r: "sc' = scene st" "out' = out\<lparr>beauty := b, normal := n, albedo := a\<rparr>"
    by (simp_all add: render_def Let_def)
  show ?thesis
    apply (rule exI[of _ st])
    using b n a r by (simp add: add_at_Some)
qed

lemma render_total:
  assumes "0 \<le> int_add (int_mul y (xres out)) x"
    and "int_add (int_mul y (xres out)) x < int (length (beauty out))"
    and "int_add (int_mul y (xres out)) x < int (length (normal out))"
    and "int_add (int_mul y (xres out)) x < int (length (albedo out))"
  shows "\<exists>sc' out'. render S U x y frame pass frames sc out = Some (sc', out')"
proof -
  let ?i = "int_add (int_mul y (xres out)) x"
  let ?hr = "uintToUnitReal U
               (hash (word_of_int (int_add (int_mul (int_mul frame (xres out)) (yres out)) ?i)))"
  from camera_ray_total[of x y frame pass frames "xres out" "yres out" ?hr] obtain r d
    where c: "camera_ray x y frame pass frames (xres out) (yres out) ?hr = Some (r, d)"
      and d: "0 \<le> d" "d < 6" by blast
  let ?st = "\<lparr>ray = r, contribution = vec_splat (Fin 0), throughput = vec_splat (Fin 1),
               normal_out = vec_splat (Fin 0), albedo_out = vec_splat (Fin 0), bounce = 0,
               dim = d, scene = sc, events = []\<rparr>"
  from path_loop_bound[of ?st S pass ?hr] d obtain st'
    where p: "path_loop S pass ?hr ?st = Some st'" by auto
  show ?thesis using assms c p by (simp add: render_def Let_def add_at_def array_get_def)
qed


lemma for_loop_inv:
  "for_loop lo hi body s = Some s' \<Longrightarrow> I s \<Longrightarrow>
   (\<And>i t t'. body i t = Some t' \<Longrightarrow> I t \<Longrightarrow> I t') \<Longrightarrow> I s'"
proof (induction lo hi body s rule: for_loop.induct)
  case (1 i hi body s)
  show ?case
  proof (cases "i < hi")
    case False
    then show ?thesis using "1.prems"(1,2) by (simp add: for_loop.simps[of i hi body s])
  next
    case True
    with "1.prems"(1) obtain t where t: "body i s = Some t"
      and l: "for_loop (i + 1) hi body t = Some s'"
      by (auto simp: for_loop.simps[of i hi body s] split: Option.bind_splits)
    from "1.prems"(3)[OF t "1.prems"(2)] have "I t" .
    show ?thesis
    proof (rule "1.IH"[OF True t l \<open>I t\<close>])
      fix j u u'
      assume "body j u = Some u'" "I u"
      then show "I u'" by (rule "1.prems"(3))
    qed
  qed
qed

lemma bucket_loop_inv:
  "bucket_loop rend xr yr xb nb bp tc s = Some (tc', s') \<Longrightarrow> I s \<Longrightarrow>
   (\<And>x y p t t'. rend x y p t = Some t' \<Longrightarrow> I t \<Longrightarrow> I t') \<Longrightarrow> I s'"
proof (induction rend xr yr xb nb bp tc s rule: bucket_loop.induct)
  case (1 rend xr yr xb nb bp tc s)
  let ?b = "next_bucket tc"
  let ?tc = "tc\<lparr>next_bucket := int_add ?b 1\<rparr>"
  show ?case
  proof (cases "?b \<ge> int_mul nb (num_passes ?tc)")
    case True
    then show ?thesis using "1.prems"(1,2)
      by (simp add: bucket_loop.simps[of rend xr yr xb nb bp tc s] Let_def)
  next
    case False
    with "1.prems"(1) obtain sp bkt_y t where sp: "int_div ?b nb = Some sp"
      and dy: "int_div (int_sub ?b (int_mul nb sp)) xb = Some bkt_y"
      and fl: "for_loop (int_mul bkt_y 32) (min (int_add (int_mul bkt_y 32) 32) yr)
                 (\<lambda>y. for_loop
                        (int_mul (int_sub (int_sub ?b (int_mul nb sp)) (int_mul xb bkt_y)) 32)
                        (min (int_add (int_mul (int_sub (int_sub ?b (int_mul nb sp))
                                                  (int_mul xb bkt_y)) 32) 32) xr)
                        (\<lambda>x. rend x y (int_add bp sp))) s = Some t"
      and rec: "bucket_loop rend xr yr xb nb bp ?tc t = Some (tc', s')"
      by (auto simp: bucket_loop.simps[of rend xr yr xb nb bp tc s] Let_def
          split: Option.bind_splits)
    have "I t"
    proof (rule for_loop_inv[where I = I, OF fl "1.prems"(2)])
      fix y u u'
      assume "for_loop
                (int_mul (int_sub (int_sub ?b (int_mul nb sp)) (int_mul xb bkt_y)) 32)
                (min (int_add (int_mul (int_sub (int_sub ?b (int_mul nb sp))
                                          (int_mul xb bkt_y)) 32) 32) xr)
                (\<lambda>x. rend x y (int_add bp sp)) u = Some u'" and "I u"
      then show "I u'" by (rule for_loop_inv[where I = I]) (rule "1.prems"(3))
    qed
    show ?thesis
    proof (rule "1.IH"[OF refl refl False sp refl dy refl refl refl refl refl fl rec \<open>I t\<close>])
      fix x y p u u'
      assume "rend x y p u = Some u'" "I u"
      then show "I u'" by (rule "1.prems"(3))
    qed
  qed
qed


lemma for_loop_total:
  assumes "\<And>i t. lo \<le> i \<Longrightarrow> i < hi \<Longrightarrow> I t \<Longrightarrow> \<exists>t'. body i t = Some t' \<and> I t'"
  shows "I s \<Longrightarrow> \<exists>s'. for_loop lo hi body s = Some s' \<and> I s'"
  using assms
proof (induction "nat (hi - lo)" arbitrary: lo s)
  case 0
  then have "\<not> lo < hi" by simp
  then show ?case using "0.prems"(1) by (simp add: for_loop.simps[of lo hi body s])
next
  case (Suc n)
  then have lt: "lo < hi" by linarith
  have n: "n = nat (hi - (lo + 1))" using Suc.hyps(2) by linarith
  from Suc.prems(2)[OF order_refl lt Suc.prems(1)] obtain t
    where t: "body lo s = Some t" "I t" by blast
  have "\<exists>s'. for_loop (lo + 1) hi body t = Some s' \<and> I s'"
  proof (rule Suc.hyps(1)[OF n t(2)])
    fix i u
    assume "lo + 1 \<le> i" "i < hi" "I u"
    then show "\<exists>u'. body i u = Some u' \<and> I u'" using Suc.prems(2)[of i u] by simp
  qed
  then show ?case using lt t by (simp add: for_loop.simps[of lo hi body s])
qed

lemma bucket_loop_total:
  assumes xr: "1 \<le> xr" "xr + 32 \<le> INT_MAX" and yr: "1 \<le> yr" "yr + 32 \<le> INT_MAX"
    and xb: "xb = (xr + 31) div 32" and yb: "yb = (yr + 31) div 32" and nb: "nb = xb * yb"
    and P: "1 \<le> P"
    and tot: "nb * P \<le> INT_MAX"
    and bp: "INT_MIN \<le> bp" "bp + P - 1 \<le> INT_MAX"
    and rend: "\<And>x y p t. 0 \<le> x \<Longrightarrow> x < xr \<Longrightarrow> 0 \<le> y \<Longrightarrow> y < yr \<Longrightarrow> I t \<Longrightarrow>
                 \<exists>t'. rend x y p t = Some t' \<and> I t'"
  shows "0 \<le> b \<Longrightarrow> b \<le> nb * P \<Longrightarrow> I s \<Longrightarrow>
         \<exists>tc' s'. bucket_loop rend xr yr xb nb bp \<lparr>num_passes = P, next_bucket = b\<rparr> s =
                    Some (tc', s') \<and> I s'"
proof (induction "nat (nb * P - b)" arbitrary: b s)
  case 0
  then have e: "b = nb * P" by simp
  have "0 \<le> nb * P" using 0 e by simp
  then have "int_mul nb P = nb * P" using tot
    by (simp add: int_mul_def in32 INT_MAX_def INT_MIN_def)
  then show ?case using e "0.prems"(3) by (simp add: bucket_done)
next
  case (Suc n)
  then have lt: "b < nb * P" by linarith
  have n: "n = nat (nb * P - (b + 1))" using Suc.hyps(2) by linarith
  let ?by = "(b mod nb) div xb"
  let ?bx = "(b mod nb) mod xb"
  have xb0: "0 < xb" using xr xb by simp
  have yb0: "0 < yb" using yr yb by simp
  have nb0: "0 < nb" using xb0 yb0 nb by simp
  have p0: "0 \<le> b mod nb" using nb0 by simp
  have bx0: "0 \<le> ?bx" using xb0 by simp
  have by0: "0 \<le> ?by" using p0 xb0 by (simp add: pos_imp_zdiv_nonneg_iff)
  have inner: "\<exists>t'. for_loop (?bx * 32) (min (?bx * 32 + 32) xr)
                       (\<lambda>x. rend x y (bp + b div nb)) t = Some t' \<and> I t'"
    if "0 \<le> y" "y < yr" "I t" for y t
  proof (rule for_loop_total[where I = I, OF _ that(3)])
    fix x u
    assume "?bx * 32 \<le> x" "x < min (?bx * 32 + 32) xr" "I u"
    then show "\<exists>u'. rend x y (bp + b div nb) u = Some u' \<and> I u'"
      using bx0 that(1,2) by (intro rend) simp_all
  qed
  have "\<exists>t. for_loop (?by * 32) (min (?by * 32 + 32) yr)
              (\<lambda>y. for_loop (?bx * 32) (min (?bx * 32 + 32) xr)
                     (\<lambda>x. rend x y (bp + b div nb))) s = Some t \<and> I t"
  proof (rule for_loop_total[where I = I, OF _ Suc.prems(3)])
    fix y u
    assume "?by * 32 \<le> y" "y < min (?by * 32 + 32) yr" "I u"
    then show "\<exists>u'. for_loop (?bx * 32) (min (?bx * 32 + 32) xr)
                       (\<lambda>x. rend x y (bp + b div nb)) u = Some u' \<and> I u'"
      using by0 by (intro inner) simp_all
  qed
  then obtain t where t: "for_loop (?by * 32) (min (?by * 32 + 32) yr)
              (\<lambda>y. for_loop (?bx * 32) (min (?bx * 32 + 32) xr)
                     (\<lambda>x. rend x y (bp + b div nb))) s = Some t" and it: "I t" by blast
  from Suc.hyps(1)[OF n _ _ it] Suc.prems(1) lt
  obtain tc' s' where
    "bucket_loop rend xr yr xb nb bp \<lparr>num_passes = P, next_bucket = b + 1\<rparr> t = Some (tc', s')"
    "I s'" by auto
  then show ?case
    by (simp add: bucket_step[OF xr yr xb yb nb P tot Suc.prems(1) lt bp] t)
qed


lemma pixel_idx_in_range:
  assumes "0 \<le> x" "x < xr" "0 \<le> y" "y < yr" "xr * yr \<le> INT_MAX"
  shows "int_add (int_mul y xr) x = y * xr + x \<and> 0 \<le> y * xr + x \<and> y * xr + x < xr * yr"
proof -
  have xr0: "0 < xr" using assms by linarith
  have a: "0 \<le> y * xr" using assms(3) xr0 by simp
  have "y * xr \<le> (yr - 1) * xr" using assms(3,4) xr0 by (intro mult_right_mono) auto
  then have b: "y * xr + x < xr * yr" using assms(2) by (simp add: algebra_simps)
  have M: "xr * yr \<le> 2147483647" using assms(5) by (simp add: INT_MAX_def)
  have 1: "int_mul y xr = y * xr"
    unfolding int_mul_def using a b assms(1) M by (intro wrap32_id) linarith+
  have 2: "int_add (y * xr) x = y * xr + x"
    unfolding int_add_def using a b assms(1) M by (intro wrap32_id) linarith+
  show ?thesis using 1 2 a b assms(1) by simp
qed

lemma render_buffer_ok:
  assumes "render S U x y frame pass frames sc out = Some (sc', out')"
  shows "xres out' = xres out \<and> yres out' = yres out \<and> passes out' = passes out \<and>
         (buffer_ok out \<longrightarrow> buffer_ok out')"
  using render_Some[OF assms] by (auto simp: buffer_ok_def)

lemma render_total_ok:
  assumes "buffer_ok out" "0 \<le> x" "x < xres out" "0 \<le> y" "y < yres out"
    "xres out * yres out \<le> INT_MAX"
  shows "\<exists>sc' out'. render S U x y frame pass frames sc out = Some (sc', out')"
proof -
  from pixel_idx_in_range[OF assms(2-6)]
  have i: "int_add (int_mul y (xres out)) x = y * xres out + x" "0 \<le> y * xres out + x"
    "y * xres out + x < xres out * yres out" by simp_all
  show ?thesis
    using assms(1) i by (intro render_total) (simp_all add: buffer_ok_def)
qed

lemma renderThreadFunction_passes:
  assumes "renderThreadFunction S U tc out frame bp frames sc = Some (tc', out')"
  shows "passes out' = passes out \<and> xres out' = xres out \<and> yres out' = yres out"
proof -
  let ?rend = "\<lambda>x y pass (sc, out). render S U x y frame pass frames sc out"
  let ?I = "\<lambda>s. passes (snd s) = passes out \<and> xres (snd s) = xres out \<and> yres (snd s) = yres out"
  from assms obtain xb yb sc' where
    l: "bucket_loop ?rend (xres out) (yres out) xb (int_mul xb yb) bp tc (copy_scene S sc, out) =
        Some (tc', (sc', out'))"
    by (auto simp: renderThreadFunction_def render_buckets_def Let_def split: Option.bind_splits)
  have "?I (sc', out')"
  proof (rule bucket_loop_inv[where I = ?I, OF l])
    show "?I (copy_scene S sc, out)" by simp
    fix x y p t t'
    assume "?rend x y p t = Some t'" "?I t"
    then show "?I t'"
      using render_buffer_ok[of S U x y frame p frames "fst t" "snd t" "fst t'" "snd t'"]
      by (simp add: split_beta)
  qed
  then show ?thesis by simp
qed

lemma renderThreadFunction_total:
  fixes S :: "('s, 'o) Scene"
  assumes ok: "buffer_ok out" and xr: "1 \<le> xres out" "xres out + 32 \<le> INT_MAX"
    and yr: "1 \<le> yres out" "yres out + 32 \<le> INT_MAX"
    and sz: "xres out * yres out \<le> INT_MAX"
    and P: "1 \<le> P"
    and tot: "((xres out + 31) div 32) * ((yres out + 31) div 32) * P \<le> INT_MAX"
    and bp: "INT_MIN \<le> bp" "bp + P - 1 \<le> INT_MAX"
  shows "\<exists>tc' out'. renderThreadFunction S U \<lparr>num_passes = P, next_bucket = 0\<rparr> out frame bp
                       frames sc = Some (tc', out')"
proof -
  let ?rend = "\<lambda>x y pass (sc, out). render S U x y frame pass frames sc out"
  let ?I = "\<lambda>s. buffer_ok (snd s) \<and> xres (snd s) = xres out \<and> yres (snd s) = yres out"
  let ?xb = "(xres out + 31) div 32"
  let ?yb = "(yres out + 31) div 32"
  have step: "\<exists>t'. ?rend x y p t = Some t' \<and> ?I t'"
    if "0 \<le> x" "x < xres out" "0 \<le> y" "y < yres out" "?I t" for x y p t
  proof -
    from that(5) have t: "buffer_ok (snd t)" "xres (snd t) = xres out" "yres (snd t) = yres out"
      by simp_all
    from render_total_ok[of "snd t" x y S U frame p frames "fst t"] that(1-4) t sz
    obtain sc' out' where r: "render S U x y frame p frames (fst t) (snd t) = Some (sc', out')"
      by auto
    from render_buffer_ok[OF r] t have "?I (sc', out')" by simp
    then show ?thesis using r by (auto simp: split_beta)
  qed
  have tp: "0 \<le> ?xb * ?yb * P" using xr yr P by simp
  have i0: "?I (copy_scene S sc, out)" using ok by simp
  have "\<exists>tc' s'. bucket_loop ?rend (xres out) (yres out) ?xb (?xb * ?yb) bp
           \<lparr>num_passes = P, next_bucket = 0\<rparr> (copy_scene S sc, out) = Some (tc', s') \<and> ?I s'"
  proof (rule bucket_loop_total[where I = ?I and yb = ?yb])
    show "1 \<le> xres out" "xres out + 32 \<le> INT_MAX" "1 \<le> yres out" "yres out + 32 \<le> INT_MAX"
      "1 \<le> P" "INT_MIN \<le> bp" "bp + P - 1 \<le> INT_MAX" "?xb * ?yb * P \<le> INT_MAX"
      "0 \<le> ?xb * ?yb * P" "(0::int) \<le> 0" "?xb = (xres out + 31) div 32"
      "?yb = (yres out + 31) div 32" "?xb * ?yb = ?xb * ?yb"
      using xr yr P bp tot tp by simp_all
    show "?I (copy_scene S sc, out)" by (rule i0)
    fix x y p and t :: "'s \<times> RenderOutput"
    assume "0 \<le> x" "x < xres out" "0 \<le> y" "y < yres out" "?I t"
    then show "\<exists>t'. ?rend x y p t = Some t' \<and> ?I t'" by (rule step)
  qed
  then obtain tc' s' where
    "bucket_loop ?rend (xres out) (yres out) ?xb (?xb * ?yb) bp
       \<lparr>num_passes = P, next_bucket = 0\<rparr> (copy_scene S sc, out) = Some (tc', s')"
    by blast
  then show ?thesis
    by (simp add: renderThreadFunction_def Let_def render_buckets_unfold[OF xr yr P tot]
        split_beta)
qed

lemma render_path:
  "render S U x y frame pass frames sc out =
   do {
     st \<leftarrow> path_of_pixel S U x y frame pass frames (xres out) (yres out) sc;
     beauty' \<leftarrow> add_at (beauty out) (int_add (int_mul y (xres out)) x) (contribution st);
     normal' \<leftarrow> add_at (normal out) (int_add (int_mul y (xres out)) x) (normal_out st);
     albedo' \<leftarrow> add_at (albedo out) (int_add (int_mul y (xres out)) x) (albedo_out st);
     Some (scene st, out\<lparr>beauty := beauty', normal := normal', albedo := albedo'\<rparr>)
   }"
  by (simp add: render_def path_of_pixel_def Let_def split: Option.bind_split prod.splits)

lemma path_of_pixel_total:
  fixes S :: "('s, 'o) Scene"
  shows "\<exists>st :: 's path. path_of_pixel S U x y frame pass frames xr yr sc = Some st"
proof -
  let ?hr = "uintToUnitReal U
               (hash (word_of_int (int_add (int_mul (int_mul frame xr) yr)
                  (int_add (int_mul y xr) x))))"
  from camera_ray_total[of x y frame pass frames xr yr ?hr] obtain r d
    where c: "camera_ray x y frame pass frames xr yr ?hr = Some (r, d)"
      and d: "0 \<le> d" "d < 6" by blast
  let ?st = "\<lparr>ray = r, contribution = vec_splat (Fin 0), throughput = vec_splat (Fin 1),
               normal_out = vec_splat (Fin 0), albedo_out = vec_splat (Fin 0), bounce = 0,
               dim = d, scene = sc, events = []\<rparr>"
  from path_loop_bound[of ?st S pass ?hr] d obtain st'
    where p: "path_loop S pass ?hr ?st = Some st'" by auto
  show ?thesis using c p by (simp add: path_of_pixel_def Let_def)
qed

lemma add_at_eq:
  "add_at xs i v =
   (if 0 \<le> i \<and> i < int (length xs) then Some (xs[nat i := xs ! nat i + v]) else None)"
  by (simp add: add_at_def array_get_def)

lemma render_additions:
  assumes "path_of_pixel S U x y frame pass frames (xres out) (yres out) sc = Some st"
  shows "render S U x y frame pass frames sc out =
         (let i = int_add (int_mul y (xres out)) x
          in if 0 \<le> i \<and> i < int (length (beauty out)) \<and> i < int (length (normal out)) \<and>
                i < int (length (albedo out))
             then Some (scene st,
                        out\<lparr>beauty := (beauty out)[nat i := beauty out ! nat i + contribution st],
                            normal := (normal out)[nat i := normal out ! nat i + normal_out st],
                            albedo := (albedo out)[nat i := albedo out ! nat i + albedo_out st]\<rparr>)
             else None)"
  by (simp add: render_path assms add_at_eq Let_def)


lemma sky_colour_nonzero: "vx (sky_colour r) \<noteq> Fin 0"
proof -
  obtain h where h: "fp_add (Fin 1) (fp_neg (std_max (Fin 0) (vy (ray_d r)))) = h" by simp
  show ?thesis
  proof (cases h)
    case (Fin a)
    define q where "q = a * a * (a * a)"
    have q: "0 \<le> q" by (simp add: q_def)
    have "vx (sky_colour r) = Fin (53 / 255 * (75 / 100) +
            (182 / 255 * (8 / 10) - 53 / 255 * (75 / 100)) * q)"
      by (simp add: sky_colour_def Let_def h Fin vec_scale_def fp_ops plus_vec3_def
          minus_vec3_def q_def algebra_simps)
    moreover have "0 < 53 / 255 * (75 / 100) +
            (182 / 255 * (8 / 10) - 53 / 255 * (75 / 100)) * q"
      using q by (intro add_pos_nonneg mult_nonneg_nonneg) simp_all
    ultimately show ?thesis by simp
  qed (simp_all add: sky_colour_def Let_def h vec_scale_def fp_ops plus_vec3_def
        minus_vec3_def signed_inf_def)
qed

lemma empty_scene_path:
  assumes "path_of_pixel empty_scene U x y frame pass frames xr yr sc = Some st"
  shows "contribution st \<noteq> vec_splat (Fin 0) \<and> normal_out st = vec_splat (Fin 0) \<and>
         albedo_out st = vec_splat (Fin 0)"
proof -
  let ?hr = "uintToUnitReal U
               (hash (word_of_int (int_add (int_mul (int_mul frame xr) yr)
                  (int_add (int_mul y xr) x))))"
  from camera_ray_total[of x y frame pass frames xr yr ?hr] obtain r d
    where c: "camera_ray x y frame pass frames xr yr ?hr = Some (r, d)" by blast
  let ?st = "\<lparr>ray = r, contribution = vec_splat (Fin 0), throughput = vec_splat (Fin 1),
               normal_out = vec_splat (Fin 0), albedo_out = vec_splat (Fin 0), bounce = 0,
               dim = d, scene = sc, events = []\<rparr>"
  have "path_loop empty_scene pass ?hr ?st =
        Some (?st\<lparr>scene := sc, events := [Intersect r],
                  contribution := vec_splat (Fin 0) + vec_splat (Fin 1) * sky_colour r\<rparr>)"
    by (rule path_loop_Break) (simp add: bounce_step_def Let_def empty_scene_def)
  with assms c have st: "st = ?st\<lparr>scene := sc, events := [Intersect r],
                  contribution := vec_splat (Fin 0) + vec_splat (Fin 1) * sky_colour r\<rparr>"
    by (simp add: path_of_pixel_def Let_def)
  have "Fin 0 + Fin 1 * v \<noteq> Fin 0" if "v \<noteq> Fin 0" for v
    using that by (cases v) (simp_all add: fp_ops signed_inf_def)
  from this[OF sky_colour_nonzero[of r]]
  have "vx (vec_splat (Fin 0) + vec_splat (Fin 1) * sky_colour r) \<noteq> vx (vec_splat (Fin 0))"
    by (simp add: vec_splat_def plus_vec3_def times_vec3_def)
  then have "vec_splat (Fin 0) + vec_splat (Fin 1) * sky_colour r \<noteq> vec_splat (Fin 0)"
    by metis
  then show ?thesis by (simp add: st)
qed

lemma small_output_ok: "buffer_ok small_output"
  by (simp add: buffer_ok_def small_output_def)

text \<open>
  Claim C10: for every pixel, frame, pass and scene the path that \<^verbatim>\<open>render\<close> traces is
  defined, and it does not depend on the contents of the buffer. On every buffer of that
  resolution, \<^verbatim>\<open>render\<close> returns exactly when the index \<^verbatim>\<open>pixel_idx = y * xres + x\<close> (as the
  \<^verbatim>\<open>int\<close> arithmetic of the code computes it) is inside the three arrays, and then the buffer
  it leaves is the old one with the path's contribution added to the old entry of \<^verbatim>\<open>beauty\<close>
  at that index, its normal added to the old entry of \<^verbatim>\<open>normal\<close> and its albedo added to the
  old entry of \<^verbatim>\<open>albedo\<close>: every other entry, the lengths of the arrays, the pass counter and
  the resolution are unchanged. And a run of \<^verbatim>\<open>renderThreadFunction\<close> that returns has not
  changed the pass counter.
\<close>

theorem render_frame:
  fixes S :: "('s, 'o) Scene"
  shows "\<exists>st :: 's path.
     path_of_pixel S USE_DOUBLE x y frame pass frames xr yr sc = Some st \<and>
     (\<forall>out. xres out = xr \<and> yres out = yr \<longrightarrow>
        render S USE_DOUBLE x y frame pass frames sc out =
        (let i = int_add (int_mul y xr) x
         in if 0 \<le> i \<and> i < int (length (beauty out)) \<and> i < int (length (normal out)) \<and>
               i < int (length (albedo out))
            then Some (scene st,
                       out\<lparr>beauty := (beauty out)[nat i := beauty out ! nat i + contribution st],
                           normal := (normal out)[nat i := normal out ! nat i + normal_out st],
                           albedo := (albedo out)[nat i := albedo out ! nat i + albedo_out st]\<rparr>)
            else None)) \<and>
     (\<forall>out sc' out'.
        xres out = xr \<and> yres out = yr \<and>
        render S USE_DOUBLE x y frame pass frames sc out = Some (sc', out') \<longrightarrow>
        (let i = int_add (int_mul y xr) x
         in 0 \<le> i \<and> i < int (length (beauty out)) \<and> i < int (length (normal out)) \<and>
            i < int (length (albedo out)) \<and>
            beauty out' = (beauty out)[nat i := beauty out ! nat i + contribution st] \<and>
            normal out' = (normal out)[nat i := normal out ! nat i + normal_out st] \<and>
            albedo out' = (albedo out)[nat i := albedo out ! nat i + albedo_out st] \<and>
            (\<forall>j. j \<noteq> nat i \<longrightarrow>
               beauty out' ! j = beauty out ! j \<and> normal out' ! j = normal out ! j \<and>
               albedo out' ! j = albedo out ! j) \<and>
            length (beauty out') = length (beauty out) \<and>
            length (normal out') = length (normal out) \<and>
            length (albedo out') = length (albedo out) \<and>
            passes out' = passes out \<and> xres out' = xres out \<and> yres out' = yres out)) \<and>
     (\<forall>out thread_control base_pass thread_control' out'.
        renderThreadFunction S USE_DOUBLE thread_control out frame base_pass frames sc =
          Some (thread_control', out') \<longrightarrow>
        passes out' = passes out)"
proof -
  from path_of_pixel_total[of S USE_DOUBLE x y frame pass frames xr yr sc]
  obtain st :: "'s path" where
    st: "path_of_pixel S USE_DOUBLE x y frame pass frames xr yr sc = Some st" by blast
  have r: "render S USE_DOUBLE x y frame pass frames sc out =
        (let i = int_add (int_mul y xr) x
         in if 0 \<le> i \<and> i < int (length (beauty out)) \<and> i < int (length (normal out)) \<and>
               i < int (length (albedo out))
            then Some (scene st,
                       out\<lparr>beauty := (beauty out)[nat i := beauty out ! nat i + contribution st],
                           normal := (normal out)[nat i := normal out ! nat i + normal_out st],
                           albedo := (albedo out)[nat i := albedo out ! nat i + albedo_out st]\<rparr>)
            else None)"
    if "xres out = xr \<and> yres out = yr" for out
    using render_additions[of S USE_DOUBLE x y frame pass frames out sc st] st that by simp
  have f: "let i = int_add (int_mul y xr) x
         in 0 \<le> i \<and> i < int (length (beauty out)) \<and> i < int (length (normal out)) \<and>
            i < int (length (albedo out)) \<and>
            beauty out' = (beauty out)[nat i := beauty out ! nat i + contribution st] \<and>
            normal out' = (normal out)[nat i := normal out ! nat i + normal_out st] \<and>
            albedo out' = (albedo out)[nat i := albedo out ! nat i + albedo_out st] \<and>
            (\<forall>j. j \<noteq> nat i \<longrightarrow>
               beauty out' ! j = beauty out ! j \<and> normal out' ! j = normal out ! j \<and>
               albedo out' ! j = albedo out ! j) \<and>
            length (beauty out') = length (beauty out) \<and>
            length (normal out') = length (normal out) \<and>
            length (albedo out') = length (albedo out) \<and>
            passes out' = passes out \<and> xres out' = xres out \<and> yres out' = yres out"
    if "xres out = xr \<and> yres out = yr \<and>
        render S USE_DOUBLE x y frame pass frames sc out = Some (sc', out')" for out sc' out'
    using that r[of out] by (auto simp: Let_def split: if_splits)
  have t: "passes out' = passes out"
    if "renderThreadFunction S USE_DOUBLE thread_control out frame base_pass frames sc =
          Some (thread_control', out')" for out thread_control base_pass thread_control' out'
    using renderThreadFunction_passes[OF that] by simp
  show ?thesis
    apply (rule exI[of _ st])
    using st r f t by blast
qed


theorem render_frame_witness:
  "\<exists>st. path_of_pixel empty_scene False 1 1 0 0 0 2 2 () = Some st \<and>
        contribution st \<noteq> vec_splat (Fin 0) \<and>
        xres small_output = 2 \<and> yres small_output = 2 \<and>
        int_add (int_mul 1 2) 1 = 3 \<and>
        render empty_scene False 1 1 0 0 0 () small_output =
          Some (scene st,
                small_output\<lparr>beauty := (beauty small_output)
                                 [3 := beauty small_output ! 3 + contribution st],
                              normal := (normal small_output)
                                 [3 := normal small_output ! 3 + normal_out st],
                              albedo := (albedo small_output)
                                 [3 := albedo small_output ! 3 + albedo_out st]\<rparr>) \<and>
        (\<exists>tc' out'.
           renderThreadFunction empty_scene False \<lparr>num_passes = 1, next_bucket = 0\<rparr>
             small_output 0 0 0 () = Some (tc', out') \<and>
           passes out' = 3)"
proof -
  have i: "int_add (int_mul 1 2) 1 = 3"
    by (simp add: int_add_def int_mul_def wrap32_def)
  from render_frame[where S = empty_scene and USE_DOUBLE = False and x = 1 and y = 1
      and frame = 0 and pass = 0 and frames = 0 and xr = 2 and yr = 2 and sc = "()"]
  obtain st where
    st: "path_of_pixel empty_scene False 1 1 0 0 0 2 2 () = Some st"
    and r: "\<And>out. xres out = 2 \<and> yres out = 2 \<Longrightarrow>
        render empty_scene False 1 1 0 0 0 () out =
        (let i = int_add (int_mul 1 2) 1
         in if 0 \<le> i \<and> i < int (length (beauty out)) \<and> i < int (length (normal out)) \<and>
               i < int (length (albedo out))
            then Some (scene st,
                       out\<lparr>beauty := (beauty out)[nat i := beauty out ! nat i + contribution st],
                           normal := (normal out)[nat i := normal out ! nat i + normal_out st],
                           albedo := (albedo out)[nat i := albedo out ! nat i + albedo_out st]\<rparr>)
            else None)"
    and t: "\<And>out thread_control base_pass thread_control' out'.
        renderThreadFunction empty_scene False thread_control out 0 base_pass 0 () =
          Some (thread_control', out') \<Longrightarrow> passes out' = passes out"
    by blast
  have s: "xres small_output = 2 \<and> yres small_output = 2" by (simp add: small_output_def)
  have l: "length (beauty small_output) = 4" "length (normal small_output) = 4"
    "length (albedo small_output) = 4" by (simp_all add: small_output_def)
  have n: "nat 3 = 3" by simp
  have "render empty_scene False 1 1 0 0 0 () small_output =
          Some (scene st,
                small_output\<lparr>beauty := (beauty small_output)
                                 [3 := beauty small_output ! 3 + contribution st],
                              normal := (normal small_output)
                                 [3 := normal small_output ! 3 + normal_out st],
                              albedo := (albedo small_output)
                                 [3 := albedo small_output ! 3 + albedo_out st]\<rparr>)"
    unfolding r[OF s] i Let_def l by (simp only: n) simp
  moreover
  from renderThreadFunction_total[OF small_output_ok, of 1 0 empty_scene False 0 0 "()"]
  obtain tc' out' where th: "renderThreadFunction empty_scene False
      \<lparr>num_passes = 1, next_bucket = 0\<rparr> small_output 0 0 0 () = Some (tc', out')"
    by (auto simp: small_output_def INT_MAX_def INT_MIN_def)
  from t[OF th] have "passes out' = 3" by (simp add: small_output_def)
  with th have "\<exists>tc' out'.
           renderThreadFunction empty_scene False \<lparr>num_passes = 1, next_bucket = 0\<rparr>
             small_output 0 0 0 () = Some (tc', out') \<and> passes out' = 3" by blast
  moreover note empty_scene_path[OF st] st s i
  ultimately show ?thesis by blast
qed


lemma array_get_update: "array_get xs i = Some b \<Longrightarrow> array_get (xs[nat i := v]) i = Some v"
  by (auto simp: array_get_def split: if_splits)

lemma render_normal_form:
  "render S U x y frame pass frames sc out =
   (let i = int_add (int_mul y (xres out)) x;
        hr = uintToUnitReal U
               (hash (word_of_int (int_add (int_mul (int_mul frame (xres out)) (yres out)) i)))
    in case camera_ray x y frame pass frames (xres out) (yres out) hr of
         None \<Rightarrow> None
       | Some (r, d) \<Rightarrow>
           (case path_loop S pass hr
                   \<lparr>ray = r, contribution = vec_splat (Fin 0), throughput = vec_splat (Fin 1),
                    normal_out = vec_splat (Fin 0), albedo_out = vec_splat (Fin 0), bounce = 0,
                    dim = d, scene = sc, events = []\<rparr> of
              None \<Rightarrow> None
            | Some st \<Rightarrow>
                (case (array_get (beauty out) i, array_get (normal out) i,
                       array_get (albedo out) i) of
                   (Some b, Some n, Some a) \<Rightarrow>
                     Some (scene st,
                           out\<lparr>beauty := (beauty out)[nat i := b + contribution st],
                               normal := (normal out)[nat i := n + normal_out st],
                               albedo := (albedo out)[nat i := a + albedo_out st]\<rparr>)
                 | _ \<Rightarrow> None)))"
  by (auto simp: render_def Let_def add_at_def split: option.splits prod.splits Option.bind_splits)

text \<open>
  Claim C2: \<^verbatim>\<open>render\<close> is a function of its inputs: the pixel, the frame, the pass, the
  number of frames, the scene and the buffer, of which it reads the resolution and the three
  entries of the pixel only. Two calls with these inputs equal either both have no defined
  result, or both return, with the same scene and the same three entries at the pixel,
  whatever the other entries of the two buffers and their pass counters are.
\<close>

theorem render_deterministic:
  fixes S :: "('s, 'o) Scene"
  assumes "xres outA = xres outB" "yres outA = yres outB"
    and "i = int_add (int_mul y (xres outA)) x"
    and "array_get (beauty outA) i = array_get (beauty outB) i"
    and "array_get (normal outA) i = array_get (normal outB) i"
    and "array_get (albedo outA) i = array_get (albedo outB) i"
  shows "rel_option
           (\<lambda>r1 r2. fst r1 = fst r2 \<and>
                     array_get (beauty (snd r1)) i = array_get (beauty (snd r2)) i \<and>
                     array_get (normal (snd r1)) i = array_get (normal (snd r2)) i \<and>
                     array_get (albedo (snd r1)) i = array_get (albedo (snd r2)) i)
           (render S USE_DOUBLE x y frame pass frames sc outA)
           (render S USE_DOUBLE x y frame pass frames sc outB)"
  using assms
  by (auto simp: render_normal_form Let_def array_get_update split: option.splits prod.splits)


theorem render_deterministic_witness:
  "xres small_output = xres other_output \<and> yres small_output = yres other_output \<and>
   (3::int) = int_add (int_mul 1 (xres small_output)) 1 \<and>
   array_get (beauty small_output) 3 = array_get (beauty other_output) 3 \<and>
   array_get (normal small_output) 3 = array_get (normal other_output) 3 \<and>
   array_get (albedo small_output) 3 = array_get (albedo other_output) 3 \<and>
   passes small_output \<noteq> passes other_output \<and>
   beauty small_output \<noteq> beauty other_output \<and>
   rel_option
     (\<lambda>r1 r2. fst r1 = fst r2 \<and>
               array_get (beauty (snd r1)) 3 = array_get (beauty (snd r2)) 3 \<and>
               array_get (normal (snd r1)) 3 = array_get (normal (snd r2)) 3 \<and>
               array_get (albedo (snd r1)) 3 = array_get (albedo (snd r2)) 3)
     (render empty_scene False 1 1 0 0 0 () small_output)
     (render empty_scene False 1 1 0 0 0 () other_output) \<and>
   (\<exists>r. render empty_scene False 1 1 0 0 0 () small_output = Some r)"
proof -
  have h: "xres small_output = xres other_output" "yres small_output = yres other_output"
    "(3::int) = int_add (int_mul 1 (xres small_output)) 1"
    "array_get (beauty small_output) 3 = array_get (beauty other_output) 3"
    "array_get (normal small_output) 3 = array_get (normal other_output) 3"
    "array_get (albedo small_output) 3 = array_get (albedo other_output) 3"
    by (simp_all add: small_output_def other_output_def int_add_def int_mul_def wrap32_def
        array_get_def vec_splat_def)
  have d: "passes small_output \<noteq> passes other_output"
    "beauty small_output \<noteq> beauty other_output"
    by (simp_all add: small_output_def other_output_def vec_splat_def)
  from render_total_ok[OF small_output_ok, of 1 1 empty_scene False 0 0 0 "()"]
  have e: "\<exists>r. render empty_scene False 1 1 0 0 0 () small_output = Some r"
    by (auto simp: small_output_def INT_MAX_def)
  show ?thesis
    using h d e render_deterministic[OF h, of empty_scene False 0 0 0 "()"] by blast
qed

end
